theory Spec2Isabelle
  imports Complex_Main
begin

section \<open>Numbers, errors and array accesses\<close>

text \<open>
  The integrator works on C doubles and on \<open>int\<close> and \<open>int64_t\<close> counters.  The
  model reads a double as a real number: rounding and overflow of doubles are not
  modelled.  The inputs are real numbers.  A value the program computes and stores has
  the type \<open>cdouble\<close>: it may also be \<open>None\<close>, the result of an operation that
  has no real value (the square root of a negative number, a division by zero), where
  C yields NaN or an infinity; arithmetic on \<open>None\<close> gives \<open>None\<close>, and the model
  does not follow such a value further.  The counters are mathematical integers; their
  overflow is not modelled.

  A read or write outside an array is undefined behaviour in C; the model stops with
  \<open>OutOfBounds\<close>.  Where the program would continue on a comparison with a
  \<open>None\<close> double, the model stops with \<open>NotANumber\<close>.
\<close>

datatype error = OutOfBounds | NotANumber

type_synonym cdouble = "real option"

definition rd :: "'a list \<Rightarrow> int \<Rightarrow> error + 'a" where
  "rd xs i = (if 0 \<le> i \<and> i < int (length xs) then Inr (xs ! nat i) else Inl OutOfBounds)"

definition wr :: "'a list \<Rightarrow> int \<Rightarrow> 'a \<Rightarrow> error + 'a list" where
  "wr xs i v = (if 0 \<le> i \<and> i < int (length xs) then Inr (xs[nat i := v]) else Inl OutOfBounds)"

definition dadd :: "cdouble \<Rightarrow> cdouble \<Rightarrow> cdouble" where
  "dadd a b = (case a of None \<Rightarrow> None | Some x \<Rightarrow> (case b of None \<Rightarrow> None | Some y \<Rightarrow> Some (x + y)))"

definition dmul :: "cdouble \<Rightarrow> cdouble \<Rightarrow> cdouble" where
  "dmul a b = (case a of None \<Rightarrow> None | Some x \<Rightarrow> (case b of None \<Rightarrow> None | Some y \<Rightarrow> Some (x * y)))"

definition ddiv :: "real \<Rightarrow> real \<Rightarrow> cdouble" where
  "ddiv x y = (if y = 0 then None else Some (x / y))"

definition c_sqrt :: "real \<Rightarrow> cdouble" where
  "c_sqrt x = (if x < 0 then None else Some (sqrt x))"

section \<open>Constants of integrator.c\<close>

definition C_INV :: real where
  "C_INV = 333564 / 10 ^ 16"

definition M_PI :: real where
  "M_PI = arccos (- 1)"

definition KB_CGS :: real where
  "KB_CGS = 13806488 / 10 ^ 23"

definition H_CGS :: real where
  "H_CGS = 662606957 / 10 ^ 35"

section \<open>The storage model\<close>

text \<open>
  \<open>storage_model_t\<close> is declared in storage.h; the record holds the fields that
  integrator.c reads.  The arrays are lists, and the counts are fields of their own, as
  in the C struct: nothing ties a count to the length of its array.
\<close>

record storage_model =
  r_inner :: "real list"
  r_outer :: "real list"
  no_of_shells :: int
  inverse_time_explosion :: real
  no_of_lines :: int
  line_list_nu :: "real list"
  line_lists_tau_sobolevs :: "real list"

section \<open>Black body, trapezoid rule\<close>

definition intensity_black_body :: "real \<Rightarrow> real \<Rightarrow> cdouble" where
  "intensity_black_body nu T =
     (if KB_CGS * T = 0 then None
      else
        let beta_rad = 1 / (KB_CGS * T);
            coefficient = 2 * H_CGS * C_INV * C_INV
        in ddiv (coefficient * nu * nu * nu) (exp (H_CGS * nu * beta_rad) - 1))"

function trapezoid_loop :: "cdouble list \<Rightarrow> int \<Rightarrow> int \<Rightarrow> cdouble \<Rightarrow> error + cdouble" where
  "trapezoid_loop array N idx result =
     (if idx < N - 1 then
        (case rd array idx of
           Inl e \<Rightarrow> Inl e
         | Inr a \<Rightarrow> trapezoid_loop array N (idx + 1) (dadd result a))
      else Inr result)"
  by pat_completeness auto
termination
  by (relation "measure (\<lambda>(array, N, idx, result). nat (N - 1 - idx))") auto

definition trapezoid_integration :: "cdouble list \<Rightarrow> cdouble \<Rightarrow> int \<Rightarrow> error + cdouble" where
  "trapezoid_integration array h N =
     (case rd array 0 of
        Inl e \<Rightarrow> Inl e
      | Inr a0 \<Rightarrow>
          (case rd array (N - 1) of
             Inl e \<Rightarrow> Inl e
           | Inr aN \<Rightarrow>
               (case trapezoid_loop array N 1 (map_option (\<lambda>v. v / 2) (dadd a0 aN)) of
                  Inl e \<Rightarrow> Inl e
                | Inr result \<Rightarrow> Inr (dmul result h))))"

section \<open>Geometry\<close>

definition calculate_z :: "real \<Rightarrow> real \<Rightarrow> real \<Rightarrow> cdouble" where
  "calculate_z r p inv_t =
     (if r > p then map_option (\<lambda>s. s * C_INV * inv_t) (c_sqrt (r * r - p * p)) else Some 0)"

text \<open>The loop of the branch \<open>p \<le> r_inner[0]\<close>: one crossing per shell.\<close>

function populate_z_photosphere ::
  "real list \<Rightarrow> real \<Rightarrow> real \<Rightarrow> int \<Rightarrow> int \<Rightarrow> cdouble list \<Rightarrow> int list
     \<Rightarrow> error + (cdouble list \<times> int list)" where
  "populate_z_photosphere r p inv_t N i oz oshell_id =
     (if i < N then
        (case rd r i of
           Inl e \<Rightarrow> Inl e
         | Inr ri \<Rightarrow>
             (case wr oz i (map_option (\<lambda>z. 1 - z) (calculate_z ri p inv_t)) of
                Inl e \<Rightarrow> Inl e
              | Inr oz' \<Rightarrow>
                  (case wr oshell_id i i of
                     Inl e \<Rightarrow> Inl e
                   | Inr oshell_id' \<Rightarrow>
                       populate_z_photosphere r p inv_t N (i + 1) oz' oshell_id')))
      else Inr (oz, oshell_id))"
  by pat_completeness auto
termination
  by (relation "measure (\<lambda>(r, p, inv_t, N, i, oz, oshell_id). nat (N - i))") auto

text \<open>
  The loop of the other branch: every shell with \<open>z \<noteq> 0\<close> is crossed twice.  The
  state carries \<open>offset\<close>, which starts at \<open>-1\<close> and is set at the first such shell.
\<close>

function populate_z_shells ::
  "real list \<Rightarrow> real \<Rightarrow> real \<Rightarrow> int \<Rightarrow> int \<Rightarrow> int \<Rightarrow> cdouble list \<Rightarrow> int list
     \<Rightarrow> error + (int \<times> cdouble list \<times> int list)" where
  "populate_z_shells r p inv_t N i offset oz oshell_id =
     (if i < N then
        (case rd r i of
           Inl e \<Rightarrow> Inl e
         | Inr ri \<Rightarrow>
             (let z = calculate_z ri p inv_t in
              if z = Some 0 then populate_z_shells r p inv_t N (i + 1) offset oz oshell_id
              else
                (let offset' = (if offset = - 1 then i else offset);
                     i_low = N - i - 1;
                     i_up = N + i - 2 * offset'
                 in
                   (case wr oz i_low (map_option (\<lambda>z. 1 + z) z) of
                      Inl e \<Rightarrow> Inl e
                    | Inr oz1 \<Rightarrow>
                        (case wr oshell_id i_low i of
                           Inl e \<Rightarrow> Inl e
                         | Inr sh1 \<Rightarrow>
                             (case wr oz1 i_up (map_option (\<lambda>z. 1 - z) z) of
                                Inl e \<Rightarrow> Inl e
                              | Inr oz2 \<Rightarrow>
                                  (case wr sh1 i_up i of
                                     Inl e \<Rightarrow> Inl e
                                   | Inr sh2 \<Rightarrow>
                                       populate_z_shells r p inv_t N (i + 1) offset' oz2 sh2)))))))
      else Inr (offset, oz, oshell_id))"
  by pat_completeness auto
termination
  by (relation "measure (\<lambda>(r, p, inv_t, N, i, offset, oz, oshell_id). nat (N - i))") auto

definition populate_z ::
  "storage_model \<Rightarrow> real \<Rightarrow> cdouble list \<Rightarrow> int list \<Rightarrow> error + (int \<times> cdouble list \<times> int list)" where
  "populate_z storage p oz oshell_id =
     (let r = r_outer storage;
          N = no_of_shells storage;
          inv_t = inverse_time_explosion storage
      in
        (case rd (r_inner storage) 0 of
           Inl e \<Rightarrow> Inl e
         | Inr r_ph \<Rightarrow>
             if p \<le> r_ph then
               (case populate_z_photosphere r p inv_t N 0 oz oshell_id of
                  Inl e \<Rightarrow> Inl e
                | Inr (oz', oshell_id') \<Rightarrow> Inr (N, oz', oshell_id'))
             else
               (case populate_z_shells r p inv_t N 0 (- 1) oz oshell_id of
                  Inl e \<Rightarrow> Inl e
                | Inr (offset, oz', oshell_id') \<Rightarrow> Inr (2 * (N - offset), oz', oshell_id'))))"

function calculate_p_values_loop :: "real \<Rightarrow> int \<Rightarrow> int \<Rightarrow> cdouble list \<Rightarrow> error + cdouble list" where
  "calculate_p_values_loop R_max N i opp =
     (if i < N then
        (case wr opp i (dmul (ddiv R_max (of_int (N - 1))) (Some (of_int i))) of
           Inl e \<Rightarrow> Inl e
         | Inr opp' \<Rightarrow> calculate_p_values_loop R_max N (i + 1) opp')
      else Inr opp)"
  by pat_completeness auto
termination
  by (relation "measure (\<lambda>(R_max, N, i, opp). nat (N - i))") auto

definition calculate_p_values :: "storage_model \<Rightarrow> int \<Rightarrow> cdouble list \<Rightarrow> error + cdouble list" where
  "calculate_p_values storage N opp =
     (case rd (r_outer storage) (no_of_shells storage - 1) of
        Inl e \<Rightarrow> Inl e
      | Inr R_max \<Rightarrow> calculate_p_values_loop R_max N 0 opp)"

section \<open>The recurrence along one ray\<close>

text \<open>
  Modelled from the spec: \<open>line_search\<close> is defined in cmontecarlo.c, which is not among
  the sources.  The spec gives its contract: on a line list sorted in descending order
  it returns the index of the first line with frequency at or below the target, and the
  line count if there is none.
\<close>

definition line_search :: "real list \<Rightarrow> real \<Rightarrow> int \<Rightarrow> int" where
  "line_search nu nu_insert number_of_lines =
     int (length (takeWhile (\<lambda>x. nu_insert < x) (take (nat number_of_lines) nu)))"

text \<open>
  The innermost loop of \<open>_formal_integral\<close>.  The three pointers \<open>pline\<close>,
  \<open>pexp_tau\<close> and \<open>patt_S_ul\<close> advance together, so one line index \<open>k\<close> stands
  for all of them: they point at \<open>line_list_nu[k]\<close>, \<open>exp_tau[offset + k]\<close> and
  \<open>att_S_ul[offset + k]\<close>.
\<close>

function line_walk ::
  "real list \<Rightarrow> real list \<Rightarrow> real list \<Rightarrow> int \<Rightarrow> real \<Rightarrow> int \<Rightarrow> int \<Rightarrow> cdouble
     \<Rightarrow> error + cdouble" where
  "line_walk line_nu exp_tau att_S_ul size_line nu_end offset k I =
     (if k < size_line then
        (case rd line_nu k of
           Inl e \<Rightarrow> Inl e
         | Inr pline \<Rightarrow>
             if pline < nu_end then Inr I
             else
               (case rd exp_tau (offset + k) of
                  Inl e \<Rightarrow> Inl e
                | Inr pexp_tau \<Rightarrow>
                    (case rd att_S_ul (offset + k) of
                       Inl e \<Rightarrow> Inl e
                     | Inr patt_S_ul \<Rightarrow>
                         line_walk line_nu exp_tau att_S_ul size_line nu_end offset (k + 1)
                           (dadd (dmul I (Some pexp_tau)) (Some patt_S_ul)))))
      else Inr I)"
  by pat_completeness auto
termination
  by (relation "measure (\<lambda>(line_nu, exp_tau, att_S_ul, size_line, nu_end, offset, k, I).
                  nat (size_line - k))") auto

text \<open>One iteration of the loop over the intersections: the segment from \<open>z[i]\<close> to \<open>z[i+1]\<close>.\<close>

definition segment ::
  "storage_model \<Rightarrow> real list \<Rightarrow> real list \<Rightarrow> real \<Rightarrow> cdouble list \<Rightarrow> int list \<Rightarrow> int \<Rightarrow> cdouble
     \<Rightarrow> error + cdouble" where
  "segment storage exp_tau att_S_ul nu z shell_id i I =
     (case rd z i of
        Inl e \<Rightarrow> Inl e
      | Inr None \<Rightarrow> Inl NotANumber
      | Inr (Some zi) \<Rightarrow>
          (case rd z (i + 1) of
             Inl e \<Rightarrow> Inl e
           | Inr None \<Rightarrow> Inl NotANumber
           | Inr (Some zi1) \<Rightarrow>
               (let nu_start = nu * zi;
                    nu_end = nu * zi1;
                    size_line = no_of_lines storage
                in
                  (case rd shell_id i of
                     Inl e \<Rightarrow> Inl e
                   | Inr sh \<Rightarrow>
                       (let offset = sh * size_line;
                            idx_nu_start = line_search (line_list_nu storage) nu_start size_line
                        in line_walk (line_list_nu storage) exp_tau att_S_ul size_line nu_end
                             offset idx_nu_start I)))))"

function segments_loop ::
  "storage_model \<Rightarrow> real list \<Rightarrow> real list \<Rightarrow> real \<Rightarrow> cdouble list \<Rightarrow> int list \<Rightarrow> int \<Rightarrow> int
     \<Rightarrow> cdouble \<Rightarrow> error + cdouble" where
  "segments_loop storage exp_tau att_S_ul nu z shell_id size_z i I =
     (if i < size_z - 1 then
        (case segment storage exp_tau att_S_ul nu z shell_id i I of
           Inl e \<Rightarrow> Inl e
         | Inr I' \<Rightarrow> segments_loop storage exp_tau att_S_ul nu z shell_id size_z (i + 1) I')
      else Inr I)"
  by pat_completeness auto
termination
  by (relation "measure (\<lambda>(storage, exp_tau, att_S_ul, nu, z, shell_id, size_z, i, I).
                  nat (size_z - 1 - i))") auto

text \<open>
  The thread-local buffers that live across the iterations: the per-ray intensities
  \<open>I_nu\<close> and the intersection record \<open>z\<close>, \<open>shell_id\<close>.
\<close>

record scratch =
  buf_I_nu :: "cdouble list"
  buf_z :: "cdouble list"
  buf_shell_id :: "int list"

text \<open>
  The body of the loop over the impact parameters, for the ray \<open>p\<close>: the value that
  ends in \<open>I_nu[p_idx]\<close>, with the intersection record as \<open>populate_z\<close> left it.
  The program keeps the running intensity in \<open>I_nu[p_idx]\<close> itself; the model carries
  it as \<open>I\<close> and \<open>ray\<close> stores it when the ray is done.  Nothing reads
  \<open>I_nu[p_idx]\<close> in between.
\<close>

definition ray_intensity ::
  "storage_model \<Rightarrow> real \<Rightarrow> real list \<Rightarrow> real list \<Rightarrow> real \<Rightarrow> real \<Rightarrow> real
     \<Rightarrow> cdouble list \<Rightarrow> int list \<Rightarrow> error + (cdouble \<times> cdouble list \<times> int list)" where
  "ray_intensity storage iT exp_tau att_S_ul nu R_ph p z0 shell_id0 =
     (case populate_z storage p z0 shell_id0 of
        Inl e \<Rightarrow> Inl e
      | Inr (size_z, z1, shell_id1) \<Rightarrow>
          (let I0 = (if p \<le> R_ph then intensity_black_body nu iT else Some 0) in
             (case segments_loop storage exp_tau att_S_ul nu z1 shell_id1 size_z 0 I0 of
                Inl e \<Rightarrow> Inl e
              | Inr I \<Rightarrow> Inr (dmul I (Some p), z1, shell_id1))))"

definition ray ::
  "storage_model \<Rightarrow> real \<Rightarrow> real list \<Rightarrow> real list \<Rightarrow> real \<Rightarrow> real \<Rightarrow> cdouble list \<Rightarrow> int
     \<Rightarrow> scratch \<Rightarrow> error + scratch" where
  "ray storage iT exp_tau att_S_ul nu R_ph pp p_idx s =
     (case rd pp p_idx of
        Inl e \<Rightarrow> Inl e
      | Inr None \<Rightarrow> Inl NotANumber
      | Inr (Some p) \<Rightarrow>
          (case ray_intensity storage iT exp_tau att_S_ul nu R_ph p (buf_z s) (buf_shell_id s) of
             Inl e \<Rightarrow> Inl e
           | Inr (I, z1, shell_id1) \<Rightarrow>
               (case wr (buf_I_nu s) p_idx I of
                  Inl e \<Rightarrow> Inl e
                | Inr I_nu1 \<Rightarrow> Inr \<lparr>buf_I_nu = I_nu1, buf_z = z1, buf_shell_id = shell_id1\<rparr>)))"

function rays_loop ::
  "storage_model \<Rightarrow> real \<Rightarrow> real list \<Rightarrow> real list \<Rightarrow> real \<Rightarrow> real \<Rightarrow> cdouble list \<Rightarrow> int \<Rightarrow> int
     \<Rightarrow> scratch \<Rightarrow> error + scratch" where
  "rays_loop storage iT exp_tau att_S_ul nu R_ph pp N p_idx s =
     (if p_idx < N then
        (case ray storage iT exp_tau att_S_ul nu R_ph pp p_idx s of
           Inl e \<Rightarrow> Inl e
         | Inr s' \<Rightarrow> rays_loop storage iT exp_tau att_S_ul nu R_ph pp N (p_idx + 1) s')
      else Inr s)"
  by pat_completeness auto
termination
  by (relation "measure (\<lambda>(storage, iT, exp_tau, att_S_ul, nu, R_ph, pp, N, p_idx, s).
                  nat (N - p_idx))") auto

section \<open>The formal integral\<close>

text \<open>
  One iteration of the loop over the frequencies: all rays from \<open>p_idx = 1\<close>, then
  the trapezoid rule over the whole buffer \<open>I_nu\<close>.
\<close>

definition frequency_bin ::
  "storage_model \<Rightarrow> real \<Rightarrow> real list \<Rightarrow> real list \<Rightarrow> real \<Rightarrow> real \<Rightarrow> cdouble list \<Rightarrow> int
     \<Rightarrow> real list \<Rightarrow> int \<Rightarrow> cdouble list \<times> scratch \<Rightarrow> error + (cdouble list \<times> scratch)" where
  "frequency_bin storage iT exp_tau att_S_ul R_ph R_max pp N inu nu_idx Ls =
     (case rd inu nu_idx of
        Inl e \<Rightarrow> Inl e
      | Inr nu \<Rightarrow>
          (case rays_loop storage iT exp_tau att_S_ul nu R_ph pp N 1 (snd Ls) of
             Inl e \<Rightarrow> Inl e
           | Inr s' \<Rightarrow>
               (case trapezoid_integration (buf_I_nu s') (ddiv R_max (of_int N)) N of
                  Inl e \<Rightarrow> Inl e
                | Inr t \<Rightarrow>
                    (case wr (fst Ls) nu_idx (dmul (Some (8 * M_PI * M_PI)) t) of
                       Inl e \<Rightarrow> Inl e
                     | Inr L' \<Rightarrow> Inr (L', s')))))"

function frequency_loop ::
  "storage_model \<Rightarrow> real \<Rightarrow> real list \<Rightarrow> real list \<Rightarrow> real \<Rightarrow> real \<Rightarrow> cdouble list \<Rightarrow> int
     \<Rightarrow> real list \<Rightarrow> int \<Rightarrow> int \<Rightarrow> cdouble list \<times> scratch \<Rightarrow> error + (cdouble list \<times> scratch)" where
  "frequency_loop storage iT exp_tau att_S_ul R_ph R_max pp N inu inu_size nu_idx Ls =
     (if nu_idx < inu_size then
        (case frequency_bin storage iT exp_tau att_S_ul R_ph R_max pp N inu nu_idx Ls of
           Inl e \<Rightarrow> Inl e
         | Inr Ls' \<Rightarrow>
             frequency_loop storage iT exp_tau att_S_ul R_ph R_max pp N inu inu_size
               (nu_idx + 1) Ls')
      else Inr Ls)"
  by pat_completeness auto
termination
  by (relation "measure (\<lambda>(storage, iT, exp_tau, att_S_ul, R_ph, R_max, pp, N, inu, inu_size,
                  nu_idx, Ls). nat (inu_size - nu_idx))") auto

function exp_tau_loop :: "real list \<Rightarrow> int \<Rightarrow> int \<Rightarrow> real list \<Rightarrow> error + real list" where
  "exp_tau_loop tau size_tau i exp_tau =
     (if i < size_tau then
        (case rd tau i of
           Inl e \<Rightarrow> Inl e
         | Inr t \<Rightarrow>
             (case wr exp_tau i (exp (- t)) of
                Inl e \<Rightarrow> Inl e
              | Inr exp_tau' \<Rightarrow> exp_tau_loop tau size_tau (i + 1) exp_tau'))
      else Inr exp_tau)"
  by pat_completeness auto
termination
  by (relation "measure (\<lambda>(tau, size_tau, i, exp_tau). nat (size_tau - i))") auto

text \<open>
  A variable-length array \<open>double a[n]\<close> is not initialised: its first contents are
  whatever the stack holds.  \<open>alloc n g\<close> is the array of \<open>n\<close> cells whose cell
  \<open>k\<close> starts as \<open>g k\<close>; a size that is not positive (undefined in ISO C) gives
  the empty array, on which every access is out of bounds.
\<close>

definition alloc :: "int \<Rightarrow> (nat \<Rightarrow> 'a) \<Rightarrow> 'a list" where
  "alloc n g = map g [0..<nat n]"

record stack_contents =
  stack_I_nu :: "nat \<Rightarrow> cdouble"
  stack_z :: "nat \<Rightarrow> cdouble"
  stack_shell_id :: "nat \<Rightarrow> int"

text \<open>
  \<open>_formal_integral\<close>, run by one thread that takes every frequency index in order.
  \<open>stack\<close> gives the contents the thread's stack has where the buffers \<open>I_nu\<close>,
  \<open>z\<close> and \<open>shell_id\<close> are placed.  The buffers \<open>exp_tau\<close> and \<open>pp\<close> are
  written in full before they are read, so their first contents do not matter.  The
  output \<open>L\<close> comes from \<open>calloc\<close> and starts as zeros.
\<close>

definition formal_integral ::
  "storage_model \<Rightarrow> real \<Rightarrow> real list \<Rightarrow> int \<Rightarrow> real list \<Rightarrow> int \<Rightarrow> stack_contents
     \<Rightarrow> error + cdouble list" where
  "formal_integral storage iT inu inu_size att_S_ul N stack =
     (let L = replicate (nat inu_size) (Some 0);
          size_line = no_of_lines storage;
          size_shell = no_of_shells storage;
          size_tau = size_line * size_shell;
          s = \<lparr>buf_I_nu = alloc N (stack_I_nu stack),
               buf_z = alloc (2 * no_of_shells storage) (stack_z stack),
               buf_shell_id = alloc (2 * no_of_shells storage) (stack_shell_id stack)\<rparr>
      in
        (case rd (r_inner storage) 0 of
           Inl e \<Rightarrow> Inl e
         | Inr R_ph \<Rightarrow>
             (case rd (r_outer storage) (size_shell - 1) of
                Inl e \<Rightarrow> Inl e
              | Inr R_max \<Rightarrow>
                  (case exp_tau_loop (line_lists_tau_sobolevs storage) size_tau 0
                          (replicate (nat size_tau) 0) of
                     Inl e \<Rightarrow> Inl e
                   | Inr exp_tau \<Rightarrow>
                       (case calculate_p_values storage N (replicate (nat N) None) of
                          Inl e \<Rightarrow> Inl e
                        | Inr pp \<Rightarrow>
                            (case frequency_loop storage iT exp_tau att_S_ul R_ph R_max pp N
                                    inu inu_size 0 (L, s) of
                               Inl e \<Rightarrow> Inl e
                             | Inr (L', s') \<Rightarrow> Inr L'))))))"

text \<open>
  The loops are unfolded one step at a time in the proofs below, so their equations are
  taken out of the simplifier's default rules.
\<close>

declare trapezoid_loop.simps [simp del]
declare populate_z_photosphere.simps [simp del]
declare populate_z_shells.simps [simp del]
declare calculate_p_values_loop.simps [simp del]
declare line_walk.simps [simp del]
declare segments_loop.simps [simp del]
declare rays_loop.simps [simp del]
declare frequency_loop.simps [simp del]
declare exp_tau_loop.simps [simp del]

section \<open>Example inputs\<close>

text \<open>Concrete shell models, used to run the definitions.\<close>

definition ex_photosphere :: storage_model where
  "ex_photosphere = \<lparr>r_inner = [4], r_outer = [5], no_of_shells = 1,
     inverse_time_explosion = 1, no_of_lines = 1, line_list_nu = [10],
     line_lists_tau_sobolevs = [0]\<rparr>"

definition ex_two_shells :: storage_model where
  "ex_two_shells = \<lparr>r_inner = [1], r_outer = [2, 5], no_of_shells = 2,
     inverse_time_explosion = 1, no_of_lines = 1, line_list_nu = [10],
     line_lists_tau_sobolevs = [0, 0]\<rparr>"

definition ex_superluminal :: storage_model where
  "ex_superluminal = \<lparr>r_inner = [1], r_outer = [5], no_of_shells = 1,
     inverse_time_explosion = 10 ^ 11, no_of_lines = 1, line_list_nu = [10],
     line_lists_tau_sobolevs = [0]\<rparr>"

definition ex_three_lines :: storage_model where
  "ex_three_lines = \<lparr>r_inner = [1], r_outer = [2, 3], no_of_shells = 2,
     inverse_time_explosion = 1, no_of_lines = 3, line_list_nu = [30, 20, 10],
     line_lists_tau_sobolevs = [0, 0, 0, 0, 0, 0]\<rparr>"

definition ex_one_shell :: storage_model where
  "ex_one_shell = \<lparr>r_inner = [1], r_outer = [5], no_of_shells = 1,
     inverse_time_explosion = 1, no_of_lines = 1, line_list_nu = [10],
     line_lists_tau_sobolevs = [0]\<rparr>"

definition ex_no_lines :: storage_model where
  "ex_no_lines = \<lparr>r_inner = [1], r_outer = [5], no_of_shells = 1,
     inverse_time_explosion = 1, no_of_lines = 0, line_list_nu = [],
     line_lists_tau_sobolevs = []\<rparr>"

definition ex_thin_shell :: storage_model where
  "ex_thin_shell = \<lparr>r_inner = [1], r_outer = [1], no_of_shells = 1,
     inverse_time_explosion = 1, no_of_lines = 1, line_list_nu = [10],
     line_lists_tau_sobolevs = [0]\<rparr>"

definition ex_non_monotonic :: storage_model where
  "ex_non_monotonic = \<lparr>r_inner = [1], r_outer = [5, 3], no_of_shells = 2,
     inverse_time_explosion = 1, no_of_lines = 1, line_list_nu = [10],
     line_lists_tau_sobolevs = [0, 0]\<rparr>"

definition ex_stack :: "real \<Rightarrow> stack_contents" where
  "ex_stack g = \<lparr>stack_I_nu = (\<lambda>k. Some g), stack_z = (\<lambda>k. Some 0), stack_shell_id = (\<lambda>k. 0)\<rparr>"

section \<open>Array accesses in range\<close>

lemma rd_nat: "j < length xs \<Longrightarrow> rd xs (int j) = Inr (xs ! j)"
  by (simp add: rd_def)

lemma wr_nat: "j < length xs \<Longrightarrow> wr xs (int j) v = Inr (xs[j := v])"
  by (simp add: wr_def)

lemma populate_z_photosphere_result:
  assumes "k \<le> n" "n \<le> length r" "n \<le> length oz" "n \<le> length osh"
  shows "\<exists>oz' osh'. populate_z_photosphere r p inv_t (int n) (int k) oz osh = Inr (oz', osh')
           \<and> length oz' = length oz \<and> length osh' = length osh
           \<and> (\<forall>m < length oz. oz' ! m =
                 (if k \<le> m \<and> m < n then map_option (\<lambda>z. 1 - z) (calculate_z (r ! m) p inv_t)
                  else oz ! m))
           \<and> (\<forall>m < length osh. osh' ! m = (if k \<le> m \<and> m < n then int m else osh ! m))"
  using assms
proof (induction "n - k" arbitrary: k oz osh)
  case 0
  then have "k = n" by simp
  then show ?case
    by (subst populate_z_photosphere.simps) auto
next
  case (Suc d)
  then have kn: "k < n" by simp
  define v where "v = map_option (\<lambda>z. 1 - z) (calculate_z (r ! k) p inv_t)"
  have step: "populate_z_photosphere r p inv_t (int n) (int k) oz osh =
      populate_z_photosphere r p inv_t (int n) (int (Suc k)) (oz[k := v]) (osh[k := int k])"
    using kn Suc.prems
    by (subst populate_z_photosphere.simps) (simp add: rd_nat wr_nat v_def add.commute)
  have "d = n - Suc k" using Suc.hyps by simp
  from Suc.hyps(1)[OF this, of "oz[k := v]" "osh[k := int k]"] kn Suc.prems
  obtain oz' osh' where
    r: "populate_z_photosphere r p inv_t (int n) (int (Suc k)) (oz[k := v]) (osh[k := int k]) = Inr (oz', osh')"
    and l: "length oz' = length oz" "length osh' = length osh"
    and a: "\<forall>m < length oz. oz' ! m =
                 (if Suc k \<le> m \<and> m < n then map_option (\<lambda>z. 1 - z) (calculate_z (r ! m) p inv_t)
                  else oz[k := v] ! m)"
    and b: "\<forall>m < length osh. osh' ! m = (if Suc k \<le> m \<and> m < n then int m else osh[k := int k] ! m)"
    by auto
  have eqk: "\<And>m. k \<le> m \<Longrightarrow> \<not> Suc k \<le> m \<Longrightarrow> m = k" by arith
  show ?case
    unfolding step r
    using l a b kn Suc.prems
    by (auto simp: nth_list_update v_def dest: eqk)
qed


lemma populate_z_shells_result:
  assumes "k \<le> n" "n \<le> length r" "2 * n \<le> length oz" "2 * n \<le> length osh" "off \<le> n"
    and hit: "\<forall>j < n. (calculate_z (r ! j) p inv_t \<noteq> Some 0) = (off \<le> j)"
    and "offset = (if k \<le> off then - 1 else int off)"
  shows "\<exists>oz' osh'. populate_z_shells r p inv_t (int n) (int k) offset oz osh =
             Inr (if off < n then int off else - 1, oz', osh')
           \<and> length oz' = length oz \<and> length osh' = length osh
           \<and> (\<forall>m < length oz. oz' ! m =
                 (if m < n - max k off
                  then map_option (\<lambda>z. 1 + z) (calculate_z (r ! (n - 1 - m)) p inv_t)
                  else if n + max k off - 2 * off \<le> m \<and> m < 2 * (n - off)
                  then map_option (\<lambda>z. 1 - z) (calculate_z (r ! (m + 2 * off - n)) p inv_t)
                  else oz ! m))
           \<and> (\<forall>m < length osh. osh' ! m =
                 (if m < n - max k off then int (n - 1 - m)
                  else if n + max k off - 2 * off \<le> m \<and> m < 2 * (n - off)
                  then int (m + 2 * off - n)
                  else osh ! m))"
  using assms
proof (induction "n - k" arbitrary: k oz osh offset)
  case 0
  then have "k = n" by simp
  with 0 show ?case
    by (subst populate_z_shells.simps) (auto simp: max_def)
next
  case (Suc d)
  then have kn: "k < n" by simp
  have d: "d = n - Suc k" using Suc.hyps by simp
  show ?case
  proof (cases "k < off")
    case True
    then have z0: "calculate_z (r ! k) p inv_t = Some 0"
      using Suc.prems(6) kn by auto
    have step: "populate_z_shells r p inv_t (int n) (int k) offset oz osh =
        populate_z_shells r p inv_t (int n) (int (Suc k)) offset oz osh"
      using kn Suc.prems z0
      by (subst populate_z_shells.simps) (simp add: rd_nat add.commute)
    have off': "offset = (if Suc k \<le> off then - 1 else int off)"
      using True Suc.prems(7) by simp
    have mx: "max (Suc k) off = max k off" using True by simp
    show ?thesis
      unfolding step
      using Suc.hyps(1)[OF d _ Suc.prems(2,3,4,5,6) off'] kn
      unfolding mx by simp
  next
    case False
    then have offk: "off \<le> k" by simp
    define zk where "zk = calculate_z (r ! k) p inv_t"
    have zn0: "zk \<noteq> Some 0"
      using Suc.prems(6) kn offk by (auto simp: zk_def)
    have offs: "(if offset = - 1 then int k else offset) = int off"
      using offk Suc.prems(7) by (cases "k = off") auto
    define ilow where "ilow = n - k - 1"
    define iup where "iup = n + k - 2 * off"
    have sk: "int k + 1 = int (Suc k)" by simp
    have il: "int n - int k - 1 = int ilow" using kn by (simp add: ilow_def)
    have iu: "int n + int k - 2 * int off = int iup" using kn offk Suc.prems(5) by (simp add: iup_def)
    have bl: "ilow < length oz" "ilow < length osh" "iup < length oz" "iup < length osh"
      using kn offk Suc.prems by (auto simp: ilow_def iup_def)
    define oz2 where "oz2 = oz[ilow := map_option (\<lambda>z. 1 + z) zk, iup := map_option (\<lambda>z. 1 - z) zk]"
    define osh2 where "osh2 = osh[ilow := int k, iup := int k]"
    have step: "populate_z_shells r p inv_t (int n) (int k) offset oz osh =
        populate_z_shells r p inv_t (int n) (int (Suc k)) (int off) oz2 osh2"
      using kn Suc.prems(2) zn0 bl
      apply (subst populate_z_shells.simps)
      apply (simp only: of_nat_less_iff if_True rd_nat sum.case Let_def zk_def[symmetric] if_False offs il iu sk)
      apply (simp add: wr_nat oz2_def osh2_def)
      done
    have off': "int off = (if Suc k \<le> off then - 1 else int off)"
      using offk by simp
    have len2: "2 * n \<le> length oz2" "2 * n \<le> length osh2"
      using Suc.prems by (simp_all add: oz2_def osh2_def)
    from Suc.hyps(1)[OF d _ Suc.prems(2) len2 Suc.prems(5,6) off'] kn
    obtain oz' osh' where
      r: "populate_z_shells r p inv_t (int n) (int (Suc k)) (int off) oz2 osh2 =
             Inr (if off < n then int off else - 1, oz', osh')"
      and l: "length oz' = length oz2" "length osh' = length osh2"
      and a: "\<forall>m < length oz2. oz' ! m =
                 (if m < n - max (Suc k) off
                  then map_option (\<lambda>z. 1 + z) (calculate_z (r ! (n - 1 - m)) p inv_t)
                  else if n + max (Suc k) off - 2 * off \<le> m \<and> m < 2 * (n - off)
                  then map_option (\<lambda>z. 1 - z) (calculate_z (r ! (m + 2 * off - n)) p inv_t)
                  else oz2 ! m)"
      and b: "\<forall>m < length osh2. osh' ! m =
                 (if m < n - max (Suc k) off then int (n - 1 - m)
                  else if n + max (Suc k) off - 2 * off \<le> m \<and> m < 2 * (n - off)
                  then int (m + 2 * off - n)
                  else osh2 ! m)"
      by auto
    have mx: "max (Suc k) off = Suc k" "max k off = k" using offk by simp_all
    have lens: "length oz2 = length oz" "length osh2 = length osh"
      by (simp_all add: oz2_def osh2_def)
    have A: "oz' ! m =
                 (if m < n - k
                  then map_option (\<lambda>z. 1 + z) (calculate_z (r ! (n - 1 - m)) p inv_t)
                  else if n + k - 2 * off \<le> m \<and> m < 2 * (n - off)
                  then map_option (\<lambda>z. 1 - z) (calculate_z (r ! (m + 2 * off - n)) p inv_t)
                  else oz ! m)" if m: "m < length oz" for m
    proof -
      consider "m < n - Suc k" | "m = ilow" | "m = iup" | "n + Suc k - 2 * off \<le> m \<and> m < 2 * (n - off)"
        | "m \<noteq> ilow \<and> m \<noteq> iup \<and> \<not> m < n - Suc k \<and> \<not> (n + Suc k - 2 * off \<le> m \<and> m < 2 * (n - off))"
        by blast
      then show ?thesis
      proof cases
        case 1
        then have "m < n - k" by simp
        with 1 show ?thesis using a m lens mx by simp
      next
        case 2
        have "\<not> m < n - Suc k" "\<not> n + Suc k - 2 * off \<le> m" "m \<noteq> iup" "m < n - k" "n - 1 - m = k"
          using 2 kn offk Suc.prems(5) by (auto simp: ilow_def iup_def)
        then show ?thesis using a m lens mx 2 bl
          by (simp add: oz2_def zk_def nth_list_update)
      next
        case 3
        have "\<not> m < n - Suc k" "\<not> n + Suc k - 2 * off \<le> m" "\<not> m < n - k" "n + k - 2 * off \<le> m"
          "m < 2 * (n - off)" "m + 2 * off - n = k"
          using 3 kn offk Suc.prems(5) by (auto simp: ilow_def iup_def)
        then show ?thesis using a m lens mx 3 bl
          by (simp add: oz2_def zk_def nth_list_update)
      next
        case 4
        then have "\<not> m < n - Suc k" "\<not> m < n - k" "n + k - 2 * off \<le> m"
          using kn offk Suc.prems(5) by auto
        then show ?thesis using a m lens mx 4 by simp
      next
        case 5
        then have f: "\<not> m < n - k" "n + k - 2 * off \<le> m \<Longrightarrow> m < 2 * (n - off) \<Longrightarrow> False"
          "m \<noteq> ilow" "m \<noteq> iup" "\<not> m < n - Suc k"
          using kn offk Suc.prems(5) by (auto simp: ilow_def iup_def)
        have g: "\<not> (n + Suc k - 2 * off \<le> m \<and> m < 2 * (n - off))"
          using 5 by blast
        from a[rule_format, of m] m lens f(5) g mx
        have "oz' ! m = oz2 ! m" by auto
        with f show ?thesis by (auto simp: oz2_def)
      qed
    qed
    have B: "osh' ! m =
                 (if m < n - k then int (n - 1 - m)
                  else if n + k - 2 * off \<le> m \<and> m < 2 * (n - off)
                  then int (m + 2 * off - n)
                  else osh ! m)" if m: "m < length osh" for m
    proof -
      consider "m < n - Suc k" | "m = ilow" | "m = iup" | "n + Suc k - 2 * off \<le> m \<and> m < 2 * (n - off)"
        | "m \<noteq> ilow \<and> m \<noteq> iup \<and> \<not> m < n - Suc k \<and> \<not> (n + Suc k - 2 * off \<le> m \<and> m < 2 * (n - off))"
        by blast
      then show ?thesis
      proof cases
        case 1
        then have "m < n - k" by simp
        with 1 show ?thesis using b m lens mx by simp
      next
        case 2
        have "\<not> m < n - Suc k" "\<not> n + Suc k - 2 * off \<le> m" "m \<noteq> iup" "m < n - k" "n - 1 - m = k"
          using 2 kn offk Suc.prems(5) by (auto simp: ilow_def iup_def)
        then show ?thesis using b m lens mx 2 bl
          by (simp add: osh2_def nth_list_update)
      next
        case 3
        have "\<not> m < n - Suc k" "\<not> n + Suc k - 2 * off \<le> m" "\<not> m < n - k" "n + k - 2 * off \<le> m"
          "m < 2 * (n - off)" "m + 2 * off - n = k"
          using 3 kn offk Suc.prems(5) by (auto simp: ilow_def iup_def)
        then show ?thesis using b m lens mx 3 bl
          by (simp add: osh2_def nth_list_update)
      next
        case 4
        then have "\<not> m < n - Suc k" "\<not> m < n - k" "n + k - 2 * off \<le> m"
          using kn offk Suc.prems(5) by auto
        then show ?thesis using b m lens mx 4 by simp
      next
        case 5
        then have f: "\<not> m < n - k" "n + k - 2 * off \<le> m \<Longrightarrow> m < 2 * (n - off) \<Longrightarrow> False"
          "m \<noteq> ilow" "m \<noteq> iup" "\<not> m < n - Suc k"
          using kn offk Suc.prems(5) by (auto simp: ilow_def iup_def)
        have g: "\<not> (n + Suc k - 2 * off \<le> m \<and> m < 2 * (n - off))"
          using 5 by blast
        from b[rule_format, of m] m lens f(5) g mx
        have "osh' ! m = osh2 ! m" by auto
        with f show ?thesis by (auto simp: osh2_def)
      qed
    qed
    show ?thesis
      unfolding step r mx
      using l lens A B by simp
  qed
qed

section \<open>calculate\_z\<close>

lemma C_INV_pos: "0 < C_INV"
  by (simp add: C_INV_def)

text \<open>
  C9.  For all \<open>r\<close>, \<open>p\<close> and \<open>inv_t\<close>: when \<open>r \<le> p\<close> (the tangent case
  \<open>r = p\<close> included) \<open>calculate_z\<close> returns exactly 0, a number, and no square
  root is taken; when \<open>r > p\<close> it returns \<open>sqrt (r * r - p * p) * C_INV * inv_t\<close>,
  where the square root of a negative radicand is C's NaN.
\<close>

theorem calculate_z_cases:
  "(r \<le> p \<longrightarrow> calculate_z r p inv_t = Some 0) \<and>
   (p < r \<longrightarrow> calculate_z r p inv_t =
      dmul (dmul (c_sqrt (r * r - p * p)) (Some C_INV)) (Some inv_t))"
  by (cases "c_sqrt (r * r - p * p)") (simp_all add: calculate_z_def dmul_def)

theorem calculate_z_cases_witness:
  "(1::real) \<le> 1 \<and> calculate_z 1 1 2 = Some 0 \<and>
   (0::real) < 1 \<and> calculate_z 1 0 2 = dmul (dmul (c_sqrt (1 * 1 - 0 * 0)) (Some C_INV)) (Some 2)"
  using calculate_z_cases [of 1 1 2] calculate_z_cases [of 1 0 2] by simp

section \<open>populate\_z\<close>

lemma calculate_z_nonneg_p:
  assumes "0 \<le> p"
  shows "calculate_z r p inv_t = Some (if p < r then sqrt (r * r - p * p) * C_INV * inv_t else 0)"
proof (cases "p < r")
  case True
  with assms have "p * p \<le> r * r" by (intro mult_mono) auto
  with True show ?thesis by (simp add: calculate_z_def c_sqrt_def)
next
  case False
  then show ?thesis by (simp add: calculate_z_def)
qed

lemma half_chord_pos:
  assumes "0 \<le> p" "p < r" "0 < inv_t"
  shows "0 < sqrt (r * r - p * p) * C_INV * inv_t"
proof -
  have "p * p < r * r" using assms by (intro mult_strict_mono') auto
  then have "0 < sqrt (r * r - p * p)" by simp
  with C_INV_pos assms(3) show ?thesis by simp
qed

lemma half_chord_mono:
  assumes "0 \<le> p" "p < r1" "r1 < r2" "0 < inv_t"
  shows "sqrt (r1 * r1 - p * p) * C_INV * inv_t < sqrt (r2 * r2 - p * p) * C_INV * inv_t"
proof -
  have "r1 * r1 < r2 * r2" using assms by (intro mult_strict_mono') auto
  then have "sqrt (r1 * r1 - p * p) < sqrt (r2 * r2 - p * p)" by simp
  with C_INV_pos assms(4) show ?thesis by simp
qed

lemma half_chord_le_radius:
  assumes "0 \<le> p" "p < r" "0 < inv_t"
  shows "sqrt (r * r - p * p) * C_INV * inv_t \<le> r * C_INV * inv_t"
proof -
  have "0 \<le> r" using assms by simp
  have "sqrt (r * r - p * p) \<le> sqrt (r * r)" by (rule real_sqrt_le_mono) simp
  also have "\<dots> = r" using \<open>0 \<le> r\<close> by (simp add: real_sqrt_mult)
  finally have "sqrt (r * r - p * p) \<le> r" .
  with C_INV_pos assms(3) show ?thesis by (simp add: mult_right_mono)
qed

text \<open>
  C5.  Take a shell model whose outer radii all lie below the light-distance unit
  (\<open>r_outer[i] * C_INV * inv_t < 1\<close> with a positive \<open>inv_t\<close>) and an impact
  parameter \<open>p\<close>, a distance and so not negative, with \<open>p \<le> r_inner[0]\<close>.  Then
  \<open>populate_z\<close> returns the number of shells as its count, writes at index \<open>i\<close>
  the single crossing \<open>1 - z_i\<close> of shell \<open>i\<close> with shell id \<open>i\<close>, and every
  value written lies in \<open>(0, 1]\<close>.  The order of the radii plays no part.
\<close>

theorem populate_z_photosphere_case:
  assumes "no_of_shells st = int n" "length (r_outer st) = n" "r_inner st \<noteq> []"
    and "n \<le> length oz" "n \<le> length osh"
    and "0 < inverse_time_explosion st"
    and "\<forall>i<n. r_outer st ! i * C_INV * inverse_time_explosion st < 1"
    and "0 \<le> p" "p \<le> r_inner st ! 0"
  shows "\<exists>oz' osh'. populate_z st p oz osh = Inr (int n, oz', osh') \<and>
           (\<forall>i<n. \<exists>zi. calculate_z (r_outer st ! i) p (inverse_time_explosion st) = Some zi \<and>
                      oz' ! i = Some (1 - zi) \<and> 0 < 1 - zi \<and> 1 - zi \<le> 1 \<and> osh' ! i = int i)"
proof -
  define r where "r = r_outer st"
  define inv_t where "inv_t = inverse_time_explosion st"
  from populate_z_photosphere_result[of 0 n r oz osh p inv_t] assms(2,4,5)
  obtain oz' osh' where
    run: "populate_z_photosphere r p inv_t (int n) 0 oz osh = Inr (oz', osh')"
    and oz': "\<forall>m < length oz. oz' ! m =
                (if m < n then map_option (\<lambda>z. 1 - z) (calculate_z (r ! m) p inv_t) else oz ! m)"
    and osh': "\<forall>m < length osh. osh' ! m = (if m < n then int m else osh ! m)"
    by (auto simp: r_def)
  have ph: "rd (r_inner st) 0 = Inr (r_inner st ! 0)"
    using assms(3) by (simp add: rd_def)
  have res: "populate_z st p oz osh = Inr (int n, oz', osh')"
    using run ph assms(1,9) by (simp add: populate_z_def r_def inv_t_def)
  have each: "\<exists>zi. calculate_z (r ! i) p inv_t = Some zi \<and> oz' ! i = Some (1 - zi) \<and>
                 0 < 1 - zi \<and> 1 - zi \<le> 1 \<and> osh' ! i = int i" if i: "i < n" for i
  proof -
    define zi where "zi = (if p < r ! i then sqrt (r ! i * r ! i - p * p) * C_INV * inv_t else 0)"
    have cz: "calculate_z (r ! i) p inv_t = Some zi"
      using assms(8) by (simp add: calculate_z_nonneg_p zi_def)
    have lo: "0 \<le> zi"
      using half_chord_pos[of p "r ! i" inv_t] assms(6,8) by (auto simp: zi_def inv_t_def)
    have "zi \<le> r ! i * C_INV * inv_t \<or> zi = 0"
      using half_chord_le_radius[of p "r ! i" inv_t] assms(6,8) by (auto simp: zi_def inv_t_def)
    moreover have "r ! i * C_INV * inv_t < 1"
      using assms(7) i by (simp add: r_def inv_t_def)
    ultimately have hi: "zi < 1" by auto
    have "oz' ! i = Some (1 - zi)" using oz' i assms(4) cz by simp
    moreover have "osh' ! i = int i" using osh' i assms(5) by simp
    ultimately show ?thesis using cz lo hi by simp
  qed
  show ?thesis using res each by (auto simp: r_def inv_t_def)
qed

theorem populate_z_photosphere_case_witness:
  "\<exists>oz' osh'. populate_z ex_photosphere 3 [None, None] [7, 7] = Inr (1, oz', osh') \<and>
     (\<exists>zi. calculate_z 5 3 1 = Some zi \<and> oz' ! 0 = Some (1 - zi) \<and> 0 < 1 - zi \<and> 1 - zi \<le> 1 \<and>
        osh' ! 0 = 0)"
  using populate_z_photosphere_case [of ex_photosphere 1 "[None, None]" "[7, 7]" 3]
  by (simp add: ex_photosphere_def C_INV_def)

lemma populate_z_shells_branch:
  assumes wf: "no_of_shells st = int n" "length (r_outer st) = n" "r_inner st \<noteq> []"
    and cap: "2 * n \<le> length oz" "2 * n \<le> length osh"
    and inc: "sorted_wrt (<) (r_outer st)"
    and t: "0 < inverse_time_explosion st"
    and light: "\<forall>i<n. r_outer st ! i * C_INV * inverse_time_explosion st < 1"
    and p: "0 \<le> r_inner st ! 0" "r_inner st ! 0 < p" "0 < n" "p < r_outer st ! (n - 1)"
  shows "\<exists>off oz' osh'.
           off < n \<and> p < r_outer st ! off \<and> (\<forall>j<off. r_outer st ! j \<le> p) \<and>
           populate_z st p oz osh = Inr (2 * (int n - int off), oz', osh') \<and>
           (\<forall>i. off \<le> i \<and> i < n \<longrightarrow>
              (\<exists>zi. calculate_z (r_outer st ! i) p (inverse_time_explosion st) = Some zi \<and>
                 oz' ! (n - i - 1) = Some (1 + zi) \<and> oz' ! (n + i - 2 * off) = Some (1 - zi) \<and>
                 osh' ! (n - i - 1) = int i \<and> osh' ! (n + i - 2 * off) = int i)) \<and>
           (\<forall>a b. a < b \<and> b < 2 * (n - off) \<longrightarrow>
              (\<exists>x y. oz' ! a = Some x \<and> oz' ! b = Some y \<and> y < x)) \<and>
           (\<forall>a<2 * (n - off). \<exists>x. oz' ! a = Some x \<and> 0 < x \<and> x < 2)"
proof -
  define r where "r = r_outer st"
  define inv_t where "inv_t = inverse_time_explosion st"
  define hc where "hc j = sqrt (r ! j * r ! j - p * p) * C_INV * inv_t" for j
  have p0: "0 \<le> p" using p by simp
  have len: "length r = n" using wf by (simp add: r_def)
  have mono: "r ! i < r ! j" if "i < j" "j < n" for i j
    using inc that len by (simp add: r_def sorted_wrt_iff_nth_less)
  define off where "off = (LEAST j. p < r ! j)"
  have ex: "p < r ! (n - 1)" using p by (simp add: r_def)
  have off1: "p < r ! off" unfolding off_def using ex by (rule LeastI)
  have "off \<le> n - 1" unfolding off_def using ex by (rule Least_le)
  then have off2: "off < n" using p(3) by simp
  have off3: "r ! j \<le> p" if "j < off" for j
    using not_less_Least[of j "\<lambda>j. p < r ! j"] that by (simp add: off_def)
  have above: "p < r ! j" if "off \<le> j" "j < n" for j
    using mono[of off j] off1 that by (cases "off = j") auto
  have cz: "calculate_z (r ! j) p inv_t = Some (hc j)" if "off \<le> j" "j < n" for j
    using above[OF that] p0 by (simp add: calculate_z_nonneg_p hc_def)
  have hc_pos: "0 < hc j" if "off \<le> j" "j < n" for j
    using half_chord_pos[OF p0 above[OF that]] t by (simp add: hc_def inv_t_def)
  have hc_lt1: "hc j < 1" if "off \<le> j" "j < n" for j
  proof -
    have "hc j \<le> r ! j * C_INV * inv_t"
      using half_chord_le_radius[OF p0 above[OF that]] t by (simp add: hc_def inv_t_def)
    also have "\<dots> < 1" using light that by (simp add: r_def inv_t_def)
    finally show ?thesis .
  qed
  have hc_mono: "hc i < hc j" if "off \<le> i" "i < j" "j < n" for i j
    using half_chord_mono[OF p0 above[of i] mono[of i j]] that t
    by (simp add: hc_def inv_t_def)
  have hit: "\<forall>j<n. (calculate_z (r ! j) p inv_t \<noteq> Some 0) = (off \<le> j)"
  proof (intro allI impI)
    fix j assume j: "j < n"
    show "(calculate_z (r ! j) p inv_t \<noteq> Some 0) = (off \<le> j)"
    proof (cases "off \<le> j")
      case True
      then show ?thesis using cz[OF True j] hc_pos[OF True j] by simp
    next
      case False
      then have "r ! j \<le> p" using off3 by simp
      then show ?thesis using False by (simp add: calculate_z_def)
    qed
  qed
  from populate_z_shells_result[of 0 n r oz osh off p inv_t "- 1"] len cap off2 hit
  obtain oz' osh' where
    run: "populate_z_shells r p inv_t (int n) 0 (- 1) oz osh = Inr (int off, oz', osh')"
    and oz': "\<forall>m < length oz. oz' ! m =
                 (if m < n - off
                  then map_option (\<lambda>z. 1 + z) (calculate_z (r ! (n - 1 - m)) p inv_t)
                  else if n + off - 2 * off \<le> m \<and> m < 2 * (n - off)
                  then map_option (\<lambda>z. 1 - z) (calculate_z (r ! (m + 2 * off - n)) p inv_t)
                  else oz ! m)"
    and osh': "\<forall>m < length osh. osh' ! m =
                 (if m < n - off then int (n - 1 - m)
                  else if n + off - 2 * off \<le> m \<and> m < 2 * (n - off)
                  then int (m + 2 * off - n)
                  else osh ! m)"
    by auto
  have ph: "rd (r_inner st) 0 = Inr (r_inner st ! 0)"
    using wf(3) by (simp add: rd_def)
  have res: "populate_z st p oz osh = Inr (2 * (int n - int off), oz', osh')"
    using run ph wf(1) p(2) by (simp add: populate_z_def r_def inv_t_def)
  have far: "oz' ! m = Some (1 + hc (n - 1 - m))" "osh' ! m = int (n - 1 - m)" if "m < n - off" for m
  proof -
    have "m < length oz" "m < length osh" using that cap by simp_all
    moreover have "off \<le> n - 1 - m" "n - 1 - m < n" using that by simp_all
    ultimately show "oz' ! m = Some (1 + hc (n - 1 - m))" "osh' ! m = int (n - 1 - m)"
      using oz' osh' that cz[of "n - 1 - m"] by simp_all
  qed
  have near: "oz' ! m = Some (1 - hc (m + 2 * off - n))" "osh' ! m = int (m + 2 * off - n)"
    if "n - off \<le> m" "m < 2 * (n - off)" for m
  proof -
    have "m < length oz" "m < length osh" using that cap by simp_all
    moreover have "off \<le> m + 2 * off - n" "m + 2 * off - n < n" "\<not> m < n - off"
      "n + off - 2 * off \<le> m"
      using that off2 by simp_all
    ultimately show "oz' ! m = Some (1 - hc (m + 2 * off - n))" "osh' ! m = int (m + 2 * off - n)"
      using oz' osh' that cz[of "m + 2 * off - n"] by simp_all
  qed
  have shells: "\<exists>zi. calculate_z (r ! i) p inv_t = Some zi \<and>
                 oz' ! (n - i - 1) = Some (1 + zi) \<and> oz' ! (n + i - 2 * off) = Some (1 - zi) \<and>
                 osh' ! (n - i - 1) = int i \<and> osh' ! (n + i - 2 * off) = int i"
    if "off \<le> i \<and> i < n" for i
  proof -
    have i: "off \<le> i" "i < n" using that by simp_all
    have a: "n - i - 1 < n - off" "n - 1 - (n - i - 1) = i" using i by simp_all
    have b: "n - off \<le> n + i - 2 * off" "n + i - 2 * off < 2 * (n - off)"
      "n + i - 2 * off + 2 * off - n = i" using i by simp_all
    show ?thesis
      using cz[OF i] far[OF a(1)] near[OF b(1,2)] a(2) b(3) by simp
  qed
  have desc: "\<exists>x y. oz' ! a = Some x \<and> oz' ! b = Some y \<and> y < x"
    if "a < b \<and> b < 2 * (n - off)" for a b
  proof -
    have ab: "a < b" "b < 2 * (n - off)" using that by simp_all
    consider "b < n - off" | "a < n - off" "n - off \<le> b" | "n - off \<le> a" by linarith
    then show ?thesis
    proof cases
      case 1
      then have a1: "a < n - off" using ab by simp
      have "hc (n - 1 - b) < hc (n - 1 - a)"
        using 1 ab a1 by (intro hc_mono) auto
      then show ?thesis using far(1)[OF 1] far(1)[OF a1] by simp
    next
      case 2
      have "0 < hc (n - 1 - a)" using 2 by (intro hc_pos) auto
      moreover have "0 < hc (b + 2 * off - n)" using 2 ab off2 by (intro hc_pos) auto
      ultimately show ?thesis using far(1)[OF 2(1)] near(1)[OF 2(2) ab(2)] by simp
    next
      case 3
      then have b3: "n - off \<le> b" using ab by simp
      have a3: "a < 2 * (n - off)" using ab by simp
      have "hc (a + 2 * off - n) < hc (b + 2 * off - n)"
        using 3 ab off2 by (intro hc_mono) auto
      then show ?thesis using near(1)[OF 3 a3] near(1)[OF b3 ab(2)] by simp
    qed
  qed
  have range: "\<exists>x. oz' ! a = Some x \<and> 0 < x \<and> x < 2" if "a < 2 * (n - off)" for a
  proof (cases "a < n - off")
    case True
    have "0 < hc (n - 1 - a)" "hc (n - 1 - a) < 1"
      using True by (auto intro!: hc_pos hc_lt1)
    then show ?thesis using far(1)[OF True] by simp
  next
    case False
    then have f: "n - off \<le> a" by simp
    have "0 < hc (a + 2 * off - n)" "hc (a + 2 * off - n) < 1"
      using f that off2 by (auto intro!: hc_pos hc_lt1)
    then show ?thesis using near(1)[OF f that] by simp
  qed
  show ?thesis
    apply (rule exI[of _ off], rule exI[of _ oz'], rule exI[of _ osh'])
    using off1 off2 off3 res shells desc range
    by (simp add: r_def inv_t_def)
qed

lemma sqrt_16: "sqrt (5 * 5 - 3 * 3) = 4"
proof -
  have "sqrt (5 * 5 - 3 * 3) = sqrt (4\<^sup>2)" by simp
  then show ?thesis by (simp del: real_sqrt_four)
qed

lemma all_less_2: "(\<forall>i<2::nat. P i) = (P 0 \<and> P 1)"
  by (auto simp: less_2_cases_iff)

text \<open>
  C3, as amended.  Take a shell model with strictly increasing outer radii, all below
  the light-distance unit (\<open>r_outer[i] * C_INV * inv_t < 1\<close>, \<open>inv_t\<close> positive), and an
  impact parameter with \<open>0 \<le> r_inner[0] < p < r_outer[N-1]\<close>.  Let \<open>off\<close> be the
  first shell with \<open>r_outer > p\<close>.  Then \<open>populate_z\<close> returns the count
  \<open>2 * (N - off)\<close>; for every shell \<open>i\<close> from \<open>off\<close> on it has written
  \<open>1 + z_i\<close> at index \<open>N - i - 1\<close> and \<open>1 - z_i\<close> at index \<open>N + i - 2 * off\<close>,
  both with shell id \<open>i\<close>; and the first \<open>count\<close> values of the array are strictly
  decreasing and lie in \<open>(0, 2)\<close>.
\<close>

theorem populate_z_double_crossing:
  assumes "no_of_shells st = int n" "length (r_outer st) = n" "r_inner st \<noteq> []"
    and "2 * n \<le> length oz" "2 * n \<le> length osh"
    and "sorted_wrt (<) (r_outer st)"
    and "0 < inverse_time_explosion st"
    and "\<forall>i<n. r_outer st ! i * C_INV * inverse_time_explosion st < 1"
    and "0 \<le> r_inner st ! 0" "r_inner st ! 0 < p" "0 < n" "p < r_outer st ! (n - 1)"
  shows "\<exists>off oz' osh'.
           off < n \<and> p < r_outer st ! off \<and> (\<forall>j<off. r_outer st ! j \<le> p) \<and>
           populate_z st p oz osh = Inr (2 * (int n - int off), oz', osh') \<and>
           (\<forall>i. off \<le> i \<and> i < n \<longrightarrow>
              (\<exists>zi. calculate_z (r_outer st ! i) p (inverse_time_explosion st) = Some zi \<and>
                 oz' ! (n - i - 1) = Some (1 + zi) \<and> oz' ! (n + i - 2 * off) = Some (1 - zi) \<and>
                 osh' ! (n - i - 1) = int i \<and> osh' ! (n + i - 2 * off) = int i)) \<and>
           (\<forall>a b. a < b \<and> b < 2 * (n - off) \<longrightarrow>
              (\<exists>x y. oz' ! a = Some x \<and> oz' ! b = Some y \<and> y < x)) \<and>
           (\<forall>a<2 * (n - off). \<exists>x. oz' ! a = Some x \<and> 0 < x \<and> x < 2)"
  using assms by (rule populate_z_shells_branch)

theorem populate_z_double_crossing_witness:
  "\<exists>off oz' osh'.
     off < 2 \<and> 3 < r_outer ex_two_shells ! off \<and> (\<forall>j<off. r_outer ex_two_shells ! j \<le> 3) \<and>
     populate_z ex_two_shells 3 [None, None, None, None] [7, 7, 7, 7] =
       Inr (2 * (int 2 - int off), oz', osh') \<and>
     (\<forall>i. off \<le> i \<and> i < 2 \<longrightarrow>
        (\<exists>zi. calculate_z (r_outer ex_two_shells ! i) 3 (inverse_time_explosion ex_two_shells) = Some zi \<and>
           oz' ! (2 - i - 1) = Some (1 + zi) \<and> oz' ! (2 + i - 2 * off) = Some (1 - zi) \<and>
           osh' ! (2 - i - 1) = int i \<and> osh' ! (2 + i - 2 * off) = int i)) \<and>
     (\<forall>a b. a < b \<and> b < 2 * (2 - off) \<longrightarrow>
        (\<exists>x y. oz' ! a = Some x \<and> oz' ! b = Some y \<and> y < x)) \<and>
     (\<forall>a<2 * (2 - off). \<exists>x. oz' ! a = Some x \<and> 0 < x \<and> x < 2)"
  by (rule populate_z_double_crossing)
     (simp_all add: ex_two_shells_def C_INV_def all_less_2)

text \<open>
  C3 as stated does not bound the radii by the light-distance unit.  For one shell of
  radius 5 at \<open>inv_t = 10^11\<close> and \<open>p = 3\<close> the two crossings are
  \<open>1 + z\<close> and \<open>1 - z\<close> with \<open>z = 4 * C_INV * 10^11 = 13.34256\<close>: one above 2,
  one below 0.
\<close>

theorem populate_z_double_crossing_counterexample:
  "populate_z ex_superluminal 3 [None, None] [7, 7] =
     Inr (2, [Some (1434256 / 100000), Some (- 1234256 / 100000)], [0, 0]) \<and>
   (2::real) < 1434256 / 100000 \<and> - 1234256 / 100000 < (0::real)"
  by (simp add: populate_z_def ex_superluminal_def rd_def wr_def calculate_z_def c_sqrt_def
        populate_z_shells.simps sqrt_16 C_INV_def)




section \<open>The count of populate\_z and the capacity of the buffers\<close>

text \<open>
  With buffers of capacity \<open>2 * N\<close>, as \<open>_formal_integral\<close> declares them,
  \<open>populate_z\<close> itself stays inside them for every \<open>p\<close> and any radii: the
  far index \<open>N - i - 1\<close> and the near index \<open>N + i - 2 * offset\<close> lie below
  \<open>2 * N\<close>, since \<open>offset \<le> i\<close>.
\<close>

lemma populate_z_shells_in_bounds:
  assumes "k \<le> n" "n \<le> length r" "2 * n \<le> length oz" "2 * n \<le> length osh"
    and "offset = - 1 \<or> (0 \<le> offset \<and> offset < int k)"
  shows "\<exists>c oz' osh'. populate_z_shells r p inv_t (int n) (int k) offset oz osh = Inr (c, oz', osh')
           \<and> length oz' = length oz \<and> length osh' = length osh
           \<and> (c = - 1 \<or> (0 \<le> c \<and> c < int n))"
  using assms
proof (induction "n - k" arbitrary: k oz osh offset)
  case 0
  then show ?case by (subst populate_z_shells.simps) auto
next
  case (Suc d)
  then have kn: "k < n" by simp
  have d: "d = n - Suc k" using Suc.hyps by simp
  have sk: "int k + 1 = int (Suc k)" by simp
  define zk where "zk = calculate_z (r ! k) p inv_t"
  show ?case
  proof (cases "zk = Some 0")
    case True
    have step: "populate_z_shells r p inv_t (int n) (int k) offset oz osh =
        populate_z_shells r p inv_t (int n) (int (Suc k)) offset oz osh"
      using kn Suc.prems(2) True
      apply (subst populate_z_shells.simps)
      apply (simp only: of_nat_less_iff if_True rd_nat sum.case Let_def zk_def[symmetric] sk)
      apply simp
      done
    have "offset = - 1 \<or> (0 \<le> offset \<and> offset < int (Suc k))"
      using Suc.prems(5) by auto
    from Suc.hyps(1)[OF d _ Suc.prems(2,3,4) this] kn
    show ?thesis unfolding step by simp
  next
    case False
    define off' where "off' = (if offset = - 1 then int k else offset)"
    have o: "0 \<le> off'" "off' \<le> int k"
      using Suc.prems(5) by (auto simp: off'_def)
    define ilow where "ilow = n - k - 1"
    define iup where "iup = nat (int n + int k - 2 * off')"
    have il: "int n - int k - 1 = int ilow" using kn by (simp add: ilow_def)
    have iu: "int n + int k - 2 * off' = int iup" using kn o by (simp add: iup_def)
    have bl: "ilow < length oz" "ilow < length osh" "iup < length oz" "iup < length osh"
      using kn o Suc.prems(3,4) by (auto simp: ilow_def iup_def)
    define oz2 where "oz2 = oz[ilow := map_option (\<lambda>z. 1 + z) zk, iup := map_option (\<lambda>z. 1 - z) zk]"
    define osh2 where "osh2 = osh[ilow := int k, iup := int k]"
    have step: "populate_z_shells r p inv_t (int n) (int k) offset oz osh =
        populate_z_shells r p inv_t (int n) (int (Suc k)) off' oz2 osh2"
      using kn Suc.prems(2) False bl
      apply (subst populate_z_shells.simps)
      apply (simp only: of_nat_less_iff if_True rd_nat sum.case Let_def zk_def[symmetric] if_False
               off'_def[symmetric] il iu sk)
      apply (simp add: wr_nat oz2_def osh2_def)
      done
    have inv: "off' = - 1 \<or> (0 \<le> off' \<and> off' < int (Suc k))" using o by simp
    have len2: "2 * n \<le> length oz2" "2 * n \<le> length osh2"
      using Suc.prems by (simp_all add: oz2_def osh2_def)
    from Suc.hyps(1)[OF d _ Suc.prems(2) len2 inv] kn
    show ?thesis unfolding step by (simp add: oz2_def osh2_def)
  qed
qed

lemma populate_z_in_bounds:
  assumes "no_of_shells st = int n" "n \<le> length (r_outer st)" "r_inner st \<noteq> []"
    and "2 * n \<le> length oz" "2 * n \<le> length osh"
  shows "\<exists>c oz' osh'. populate_z st p oz osh = Inr (c, oz', osh') \<and>
           length oz' = length oz \<and> length osh' = length osh \<and> 0 \<le> c \<and> c \<le> 2 * (int n + 1)"
proof -
  have ph: "rd (r_inner st) 0 = Inr (r_inner st ! 0)"
    using assms(3) by (simp add: rd_def)
  show ?thesis
  proof (cases "p \<le> r_inner st ! 0")
    case True
    from populate_z_photosphere_result[of 0 n "r_outer st" oz osh p "inverse_time_explosion st"] assms
    obtain oz' osh' where
      "populate_z_photosphere (r_outer st) p (inverse_time_explosion st) (int n) 0 oz osh = Inr (oz', osh')"
      "length oz' = length oz" "length osh' = length osh"
      by auto
    then show ?thesis using True ph assms(1) by (simp add: populate_z_def)
  next
    case False
    from populate_z_shells_in_bounds[of 0 n "r_outer st" oz osh "- 1" p "inverse_time_explosion st"] assms
    obtain c oz' osh' where
      "populate_z_shells (r_outer st) p (inverse_time_explosion st) (int n) 0 (- 1) oz osh = Inr (c, oz', osh')"
      "length oz' = length oz" "length osh' = length osh" "c = - 1 \<or> (0 \<le> c \<and> c < int n)"
      by auto
    then show ?thesis using False ph assms(1) by (auto simp: populate_z_def)
  qed
qed

text \<open>
  When no shell has \<open>r_outer > p\<close>, every \<open>z\<close> is 0 and the loop writes nothing:
  \<open>offset\<close> is still \<open>-1\<close> at the \<open>return\<close>, and the count is
  \<open>2 * (N + 1)\<close>, two more than the buffers hold.
\<close>

lemma populate_z_shells_none_crossed:
  assumes "k \<le> n" "n \<le> length r" "\<forall>j<n. r ! j \<le> p"
  shows "populate_z_shells r p inv_t (int n) (int k) offset oz osh = Inr (offset, oz, osh)"
  using assms(1)
proof (induction "n - k" arbitrary: k)
  case 0
  then show ?case by (subst populate_z_shells.simps) simp
next
  case (Suc d)
  then have kn: "k < n" by simp
  have d: "d = n - Suc k" using Suc.hyps by simp
  have sk: "int k + 1 = int (Suc k)" by simp
  have "r ! k \<le> p" using assms(3) kn by simp
  then have z0: "calculate_z (r ! k) p inv_t = Some 0"
    by (simp add: calculate_z_def)
  have "populate_z_shells r p inv_t (int n) (int k) offset oz osh =
        populate_z_shells r p inv_t (int n) (int (Suc k)) offset oz osh"
    using kn assms(2) z0
    apply (subst populate_z_shells.simps)
    apply (simp only: of_nat_less_iff if_True rd_nat sum.case Let_def sk)
    apply simp
    done
  then show ?case using Suc.hyps(1)[OF d] kn by simp
qed

lemma populate_z_none_crossed:
  assumes "no_of_shells st = int n" "n \<le> length (r_outer st)" "r_inner st \<noteq> []"
    and "r_inner st ! 0 < p" "\<forall>j<n. r_outer st ! j \<le> p"
  shows "populate_z st p oz osh = Inr (2 * (int n + 1), oz, osh)"
proof -
  have ph: "rd (r_inner st) 0 = Inr (r_inner st ! 0)"
    using assms(3) by (simp add: rd_def)
  have "populate_z_shells (r_outer st) p (inverse_time_explosion st) (int n) (int 0) (- 1) oz osh =
          Inr (- 1, oz, osh)"
    using assms(2,5) by (intro populate_z_shells_none_crossed) simp_all
  then show ?thesis using ph assms(1,4) by (simp add: populate_z_def)
qed

lemmas evals = populate_z_def rd_def wr_def calculate_z_def c_sqrt_def
  populate_z_shells.simps populate_z_photosphere.simps segments_loop.simps segment_def
  line_search_def line_walk.simps ray_intensity_def ray_def rays_loop.simps
  frequency_bin_def frequency_loop.simps exp_tau_loop.simps calculate_p_values_def
  calculate_p_values_loop.simps trapezoid_integration_def trapezoid_loop.simps
  formal_integral_def alloc_def dadd_def dmul_def ddiv_def upt_rec Let_def

text \<open>
  C10.  The claim: in the branch \<open>p > r_inner[0]\<close>, for every impact parameter,
  \<open>populate_z\<close> writes the indices 0 to \<open>count - 1\<close> and stays within the
  capacity \<open>2 * N\<close> of the caller's buffers, so that the walk reads written slots
  only.  At \<open>p = r_outer[N-1]\<close>, the last impact parameter of every run, no shell
  has \<open>r > p\<close>: \<open>offset\<close> keeps its start value \<open>-1\<close>, nothing is written,
  and the count is \<open>2 * (N + 1)\<close>.  For one shell of radius 5 and \<open>p = 5\<close> the
  buffers of capacity 2 come back as they were, with count 4.
\<close>

theorem populate_z_tangent_overrun:
  "populate_z ex_one_shell 5 [Some (3/2), Some (1/2)] [0, 0] =
     Inr (4, [Some (3/2), Some (1/2)], [0, 0]) \<and>
   2 * no_of_shells ex_one_shell < 4"
  by (simp add: evals ex_one_shell_def)

text \<open>
  The walk that follows takes the count at its word.  With the two slots as an earlier
  ray left them it passes the first segment and then reads \<open>z[2]\<close>, outside the
  buffer.
\<close>

lemma ray_intensity_tangent_overrun:
  "ray_intensity ex_one_shell 1 [1] [0] 1 1 5 [Some (3/2), Some (1/2)] [0, 0] = Inl OutOfBounds"
  by (simp add: evals ex_one_shell_def)

text \<open>
  The same for every shell model: after \<open>populate_z\<close> has returned
  \<open>2 * (N + 1)\<close>, the walk over the segments either stops on an error before or
  reads \<open>z[2 * N]\<close>.
\<close>

lemma segment_past_the_end:
  assumes "int (length zs) \<le> i + 1"
  shows "\<exists>e. segment st exp_tau att_S_ul nu zs shell_ids i I = Inl e"
proof -
  have "rd zs (i + 1) = Inl OutOfBounds" using assms by (simp add: rd_def)
  then show ?thesis
    by (auto simp: segment_def split: sum.splits option.splits)
qed

lemma segments_loop_overrun:
  assumes "0 \<le> i" "i < size_z - 1" "int (length zs) < size_z"
  shows "\<exists>e. segments_loop st exp_tau att_S_ul nu zs shell_ids size_z i I = Inl e"
  using assms(1,2)
proof (induction "nat (size_z - 1 - i)" arbitrary: i I)
  case 0
  then show ?case by simp
next
  case (Suc d)
  show ?case
  proof (cases "segment st exp_tau att_S_ul nu zs shell_ids i I")
    case (Inl e)
    then show ?thesis
      using Suc.prems by (subst segments_loop.simps) simp
  next
    case (Inr I')
    then have "i + 1 < int (length zs)"
      using segment_past_the_end[of zs i st exp_tau att_S_ul nu shell_ids I] by force
    then have next_in: "i + 1 < size_z - 1" using assms(3) by simp
    have d: "d = nat (size_z - 1 - (i + 1))" using Suc.hyps by simp
    from Suc.hyps(1)[OF d _ next_in, of I'] Suc.prems
    obtain e where "segments_loop st exp_tau att_S_ul nu zs shell_ids size_z (i + 1) I' = Inl e"
      by auto
    then show ?thesis
      using Suc.prems Inr by (subst segments_loop.simps) simp
  qed
qed

lemma ray_intensity_none_crossed:
  assumes "no_of_shells st = int n" "n \<le> length (r_outer st)" "r_inner st \<noteq> []"
    and "r_inner st ! 0 < p" "\<forall>j<n. r_outer st ! j \<le> p"
    and "length z0 = 2 * n"
  shows "\<exists>e. ray_intensity st iT exp_tau att_S_ul nu R_ph p z0 shell_id0 = Inl e"
proof -
  have geometry: "populate_z st p z0 shell_id0 = Inr (2 * (int n + 1), z0, shell_id0)"
    using assms(1-5) by (rule populate_z_none_crossed)
  have "\<exists>e. segments_loop st exp_tau att_S_ul nu z0 shell_id0 (2 * (int n + 1)) 0
                    (if p \<le> R_ph then intensity_black_body nu iT else Some 0) = Inl e"
    using assms(6) by (intro segments_loop_overrun) simp_all
  then show ?thesis using geometry by (auto simp: ray_intensity_def)
qed

text \<open>
  In exact arithmetic the last sample \<open>pp[N-1] = R_max / (N - 1) * (N - 1)\<close> is
  \<open>R_max\<close> itself, the ray that touches the outermost shell.  So every run with
  two samples or more and a frequency to evaluate, on a shell model whose last outer
  radius is the largest and lies beyond the photosphere, ends in the overrun or in an
  earlier error.  (With rounding, \<open>pp[N-1]\<close> can fall just below \<open>R_max\<close>; the
  last ray then crosses the outermost shell and the count is right.)
\<close>

lemma calculate_p_values_loop_result:
  assumes "k \<le> m" "length opp = m"
  shows "\<exists>pp. calculate_p_values_loop R_max (int m) (int k) opp = Inr pp \<and> length pp = m \<and>
           (\<forall>i<m. pp ! i =
              (if k \<le> i then dmul (ddiv R_max (of_int (int m - 1))) (Some (of_int (int i)))
               else opp ! i))"
  using assms
proof (induction "m - k" arbitrary: k opp)
  case 0
  then show ?case by (subst calculate_p_values_loop.simps) simp
next
  case (Suc d)
  then have km: "k < m" by simp
  have d: "d = m - Suc k" using Suc.hyps by simp
  have sk: "int k + 1 = int (Suc k)" by simp
  define v where "v = dmul (ddiv R_max (of_int (int m - 1))) (Some (of_int (int k)))"
  have step: "calculate_p_values_loop R_max (int m) (int k) opp =
        calculate_p_values_loop R_max (int m) (int (Suc k)) (opp[k := v])"
    using km Suc.prems
    apply (subst calculate_p_values_loop.simps)
    apply (simp only: of_nat_less_iff if_True sk)
    apply (simp add: wr_nat v_def)
    done
  from Suc.hyps(1)[OF d, of "opp[k := v]"] km Suc.prems
  obtain pp where
    r: "calculate_p_values_loop R_max (int m) (int (Suc k)) (opp[k := v]) = Inr pp"
    and l: "length pp = m"
    and a: "\<forall>i<m. pp ! i =
              (if Suc k \<le> i then dmul (ddiv R_max (of_int (int m - 1))) (Some (of_int (int i)))
               else opp[k := v] ! i)"
    by auto
  have eqk: "\<And>i. k \<le> i \<Longrightarrow> \<not> Suc k \<le> i \<Longrightarrow> i = k" by arith
  show ?case
    unfolding step r using l a km Suc.prems
    by (auto simp: nth_list_update v_def dest: eqk)
qed

lemma ray_keeps_record_lengths:
  assumes "no_of_shells st = int n" "n \<le> length (r_outer st)" "r_inner st \<noteq> []"
    and "length (buf_z s) = 2 * n" "length (buf_shell_id s) = 2 * n"
    and "ray st iT exp_tau att_S_ul nu R_ph pp p_idx s = Inr s'"
  shows "length (buf_z s') = 2 * n \<and> length (buf_shell_id s') = 2 * n"
proof -
  from assms(6) obtain p I z1 sh1 c where
    g: "populate_z st p (buf_z s) (buf_shell_id s) = Inr (c, z1, sh1)"
    and s': "buf_z s' = z1" "buf_shell_id s' = sh1"
    by (auto simp: ray_def ray_intensity_def split: sum.splits option.splits prod.splits)
  from populate_z_in_bounds[OF assms(1,2,3), of "buf_z s" "buf_shell_id s" p] assms(4,5) g
  show ?thesis using s' by auto
qed

lemma rays_loop_overrun:
  assumes "no_of_shells st = int n" "n \<le> length (r_outer st)" "r_inner st \<noteq> []"
    and "r_inner st ! 0 < R_max" "\<forall>j<n. r_outer st ! j \<le> R_max"
    and "rd pp (N - 1) = Inr (Some R_max)"
    and "p_idx < N"
    and "length (buf_z s) = 2 * n" "length (buf_shell_id s) = 2 * n"
  shows "\<exists>e. rays_loop st iT exp_tau att_S_ul nu R_ph pp N p_idx s = Inl e"
  using assms(7,8,9)
proof (induction "nat (N - p_idx)" arbitrary: p_idx s)
  case 0
  then show ?case by simp
next
  case (Suc d)
  show ?case
  proof (cases "ray st iT exp_tau att_S_ul nu R_ph pp p_idx s")
    case (Inl e)
    then show ?thesis using Suc.prems(1) by (subst rays_loop.simps) simp
  next
    case (Inr s1)
    have "p_idx \<noteq> N - 1"
    proof
      assume last: "p_idx = N - 1"
      obtain e where "ray_intensity st iT exp_tau att_S_ul nu R_ph R_max (buf_z s) (buf_shell_id s) = Inl e"
        using ray_intensity_none_crossed[OF assms(1-5) Suc.prems(2)] by blast
      then have "ray st iT exp_tau att_S_ul nu R_ph pp p_idx s = Inl e"
        using assms(6) last by (simp add: ray_def)
      with Inr show False by simp
    qed
    then have lt: "p_idx + 1 < N" using Suc.prems(1) by simp
    have d: "d = nat (N - (p_idx + 1))" using Suc.hyps by simp
    have len: "length (buf_z s1) = 2 * n" "length (buf_shell_id s1) = 2 * n"
      using ray_keeps_record_lengths[OF assms(1-3) Suc.prems(2,3) Inr] by simp_all
    from Suc.hyps(1)[OF d lt len]
    obtain e where "rays_loop st iT exp_tau att_S_ul nu R_ph pp N (p_idx + 1) s1 = Inl e" by blast
    then show ?thesis using Suc.prems(1) Inr by (subst rays_loop.simps) simp
  qed
qed

lemma formal_integral_overrun:
  assumes "no_of_shells st = int n" "0 < n" "n \<le> length (r_outer st)"
    and "\<forall>j<n. r_outer st ! j \<le> r_outer st ! (n - 1)"
    and "r_inner st \<noteq> []" "r_inner st ! 0 < r_outer st ! (n - 1)"
    and "2 \<le> N" "0 < inu_size"
  shows "\<exists>e. formal_integral st iT inu inu_size att_S_ul N stack = Inl e"
proof -
  define R_max where "R_max = r_outer st ! (n - 1)"
  define R_ph where "R_ph = r_inner st ! 0"
  define s where "s = \<lparr>buf_I_nu = alloc N (stack_I_nu stack),
               buf_z = alloc (2 * no_of_shells st) (stack_z stack),
               buf_shell_id = alloc (2 * no_of_shells st) (stack_shell_id stack)\<rparr>"
  define L where "L = replicate (nat inu_size) (Some (0::real))"
  define m where "m = nat N"
  have N: "N = int m" "2 \<le> m" using assms(7) by (simp_all add: m_def)
  have ph: "rd (r_inner st) 0 = Inr R_ph"
    using assms(5) by (simp add: rd_def R_ph_def)
  have mx: "rd (r_outer st) (no_of_shells st - 1) = Inr R_max"
    using assms(1,2,3) by (simp add: rd_def R_max_def nat_diff_distrib)
  have len: "length (buf_z s) = 2 * n" "length (buf_shell_id s) = 2 * n"
    using assms(1) by (simp_all add: s_def alloc_def)
  have rays: "\<exists>e. rays_loop st iT exp_tau att_S_ul nu R_ph pp N 1 s = Inl e"
    if "rd pp (N - 1) = Inr (Some R_max)" for exp_tau nu pp
    using assms(1,3,5,6,4) that N(2) len
    by (intro rays_loop_overrun[where n = n and R_max = R_max])
       (simp_all add: R_max_def N(1))
  have pps: "\<exists>pp. calculate_p_values st N (replicate (nat N) None) = Inr pp \<and>
               rd pp (N - 1) = Inr (Some R_max)"
  proof -
    from calculate_p_values_loop_result[of 0 m "replicate m None" R_max]
    obtain pp where pp: "calculate_p_values_loop R_max (int m) (int 0) (replicate m None) = Inr pp"
      "length pp = m"
      "\<forall>i<m. pp ! i = dmul (ddiv R_max (of_int (int m - 1))) (Some (of_int (int i)))"
      by auto
    have "m - 1 < m" using N(2) by simp
    then have "pp ! (m - 1) = dmul (ddiv R_max (of_int (int m - 1))) (Some (of_int (int (m - 1))))"
      using pp(3) by blast
    also have "int (m - 1) = int m - 1" using N(2) by simp
    also have "dmul (ddiv R_max (of_int (int m - 1))) (Some (of_int (int m - 1))) = Some R_max"
      using N(2) by (simp add: ddiv_def dmul_def)
    finally have "pp ! (m - 1) = Some R_max" .
    then have last: "rd pp (int m - 1) = Inr (Some R_max)"
      using pp(2) N(2) by (simp add: rd_def nat_diff_distrib)
    have "calculate_p_values st (int m) (replicate (nat (int m)) None) = Inr pp"
      using pp(1) mx by (simp add: calculate_p_values_def)
    with last show ?thesis unfolding N(1) by blast
  qed
  then obtain pp where pp: "calculate_p_values st N (replicate (nat N) None) = Inr pp"
    "rd pp (N - 1) = Inr (Some R_max)" by blast
  have bin: "\<exists>e. frequency_bin st iT exp_tau att_S_ul R_ph R_max pp N inu 0 (L, s) = Inl e"
    for exp_tau
  proof (cases "rd inu 0")
    case (Inl e)
    then show ?thesis by (simp add: frequency_bin_def)
  next
    case (Inr nu)
    from rays[OF pp(2), of exp_tau nu] obtain e where
      "rays_loop st iT exp_tau att_S_ul nu R_ph pp N 1 s = Inl e" by blast
    then show ?thesis using Inr by (simp add: frequency_bin_def)
  qed
  have loop: "\<exists>e. frequency_loop st iT exp_tau att_S_ul R_ph R_max pp N inu inu_size 0 (L, s) = Inl e"
    for exp_tau
  proof -
    from bin[of exp_tau] obtain e where
      "frequency_bin st iT exp_tau att_S_ul R_ph R_max pp N inu 0 (L, s) = Inl e" by blast
    then show ?thesis using assms(8) by (subst frequency_loop.simps) simp
  qed
  show ?thesis
  proof (cases "exp_tau_loop (line_lists_tau_sobolevs st) (no_of_lines st * no_of_shells st) 0
                  (replicate (nat (no_of_lines st * no_of_shells st)) 0)")
    case (Inl e)
    then show ?thesis using ph mx by (simp add: formal_integral_def Let_def)
  next
    case (Inr exp_tau)
    from loop[of exp_tau] obtain e where
      "frequency_loop st iT exp_tau att_S_ul R_ph R_max pp N inu inu_size 0 (L, s) = Inl e" by blast
    then show ?thesis
      using ph mx Inr pp(1) by (simp add: formal_integral_def Let_def L_def s_def)
  qed
qed

section \<open>The recurrence\<close>

lemma line_walk_from:
  assumes "sorted_wrt (\<ge>) line_nu" "k \<le> length line_nu" "0 \<le> offset"
    and "nat offset + length line_nu \<le> length exp_tau"
    and "nat offset + length line_nu \<le> length att_S_ul"
  shows "line_walk line_nu exp_tau att_S_ul (int (length line_nu)) nu_end offset (int k) I =
           Inr (foldl (\<lambda>I j. dadd (dmul I (Some (exp_tau ! (nat offset + j))))
                                (Some (att_S_ul ! (nat offset + j))))
                  I [j \<leftarrow> [k..<length line_nu]. nu_end \<le> line_nu ! j])"
  using assms(2)
proof (induction "length line_nu - k" arbitrary: k I)
  case 0
  then show ?case by (subst line_walk.simps) simp
next
  case (Suc d)
  then have kn: "k < length line_nu" by simp
  have d: "d = length line_nu - Suc k" using Suc.hyps by simp
  have sk: "int k + 1 = int (Suc k)" by simp
  have ix: "offset + int k = int (nat offset + k)" using assms(3) by simp
  have b: "nat offset + k < length exp_tau" "nat offset + k < length att_S_ul"
    using kn assms by simp_all
  show ?case
  proof (cases "line_nu ! k < nu_end")
    case True
    have "line_nu ! j < nu_end" if "k \<le> j" "j < length line_nu" for j
    proof (cases "j = k")
      case False
      then have "line_nu ! j \<le> line_nu ! k"
        using assms(1) that by (simp add: sorted_wrt_iff_nth_less)
      with True show ?thesis by simp
    qed (use True in simp)
    then have "[j \<leftarrow> [k..<length line_nu]. nu_end \<le> line_nu ! j] = []"
      by (fastforce simp: filter_empty_conv)
    then show ?thesis
      using True kn by (subst line_walk.simps) (simp add: rd_nat)
  next
    case False
    have f: "[j \<leftarrow> [k..<length line_nu]. nu_end \<le> line_nu ! j] =
               k # [j \<leftarrow> [Suc k..<length line_nu]. nu_end \<le> line_nu ! j]"
      using False kn by (simp add: upt_conv_Cons)
    have "line_walk line_nu exp_tau att_S_ul (int (length line_nu)) nu_end offset (int k) I =
          line_walk line_nu exp_tau att_S_ul (int (length line_nu)) nu_end offset (int (Suc k))
            (dadd (dmul I (Some (exp_tau ! (nat offset + k)))) (Some (att_S_ul ! (nat offset + k))))"
      using False kn b
      apply (subst line_walk.simps)
      apply (simp only: of_nat_less_iff if_True rd_nat sum.case if_False ix sk)
      done
    also have "\<dots> = Inr (foldl (\<lambda>I j. dadd (dmul I (Some (exp_tau ! (nat offset + j))))
                                (Some (att_S_ul ! (nat offset + j))))
                  (dadd (dmul I (Some (exp_tau ! (nat offset + k)))) (Some (att_S_ul ! (nat offset + k))))
                  [j \<leftarrow> [Suc k..<length line_nu]. nu_end \<le> line_nu ! j])"
      using Suc.hyps(1)[OF d] kn by simp
    finally show ?thesis by (simp add: f)
  qed
qed

lemma line_search_nat:
  "line_search line_nu nu_start (int (length line_nu)) =
     int (length (takeWhile (\<lambda>x. nu_start < x) line_nu))"
  by (simp add: line_search_def)

lemma window_filter:
  fixes line_nu :: "real list"
  assumes "sorted_wrt (\<ge>) line_nu"
  shows "[j \<leftarrow> [0..<length line_nu]. nu_end \<le> line_nu ! j \<and> line_nu ! j \<le> nu_start] =
         [j \<leftarrow> [length (takeWhile (\<lambda>x. nu_start < x) line_nu)..<length line_nu].
            nu_end \<le> line_nu ! j]"
proof -
  define k0 where "k0 = length (takeWhile (\<lambda>x. nu_start < x) line_nu)"
  have k0: "k0 \<le> length line_nu" by (simp add: k0_def length_takeWhile_le)
  have before: "nu_start < line_nu ! j" if "j < k0" for j
  proof -
    have "takeWhile (\<lambda>x. nu_start < x) line_nu ! j \<in> set (takeWhile (\<lambda>x. nu_start < x) line_nu)"
      using that by (simp add: k0_def)
    then have "nu_start < takeWhile (\<lambda>x. nu_start < x) line_nu ! j"
      by (auto dest: set_takeWhileD)
    then show ?thesis using that by (simp add: k0_def takeWhile_nth)
  qed
  have after: "line_nu ! j \<le> nu_start" if "k0 \<le> j" "j < length line_nu" for j
  proof -
    have "k0 < length line_nu" using that by simp
    then have "\<not> nu_start < line_nu ! k0"
      unfolding k0_def by (rule nth_length_takeWhile)
    moreover have "line_nu ! j \<le> line_nu ! k0"
    proof (cases "j = k0")
      case False
      then have "k0 < j" using that by simp
      then show ?thesis using assms(1) that by (simp add: sorted_wrt_iff_nth_less)
    qed simp
    ultimately show ?thesis by simp
  qed
  have "[0..<length line_nu] = [0..<k0] @ [k0..<length line_nu]"
    using k0 by (metis le_add_diff_inverse upt_add_eq_append zero_le)
  moreover have "[j \<leftarrow> [0..<k0]. nu_end \<le> line_nu ! j \<and> line_nu ! j \<le> nu_start] = []"
    using before by (fastforce simp: filter_empty_conv)
  moreover have "[j \<leftarrow> [k0..<length line_nu]. nu_end \<le> line_nu ! j \<and> line_nu ! j \<le> nu_start] =
                 [j \<leftarrow> [k0..<length line_nu]. nu_end \<le> line_nu ! j]"
    using after by (intro filter_cong) auto
  ultimately show ?thesis by (simp add: k0_def)
qed

text \<open>
  C2.  For every frequency \<open>nu\<close> and every segment \<open>i\<close> of the intersection
  record, with end points \<open>z[i]\<close>, \<open>z[i+1]\<close> and shell \<open>shell_id[i]\<close>, on a
  line list sorted in descending order: the recurrence starts at the first line at or
  below \<open>nu * z[i]\<close>, applies \<open>I \<leftarrow> I * exp_tau[line] + att_S_ul[line]\<close> to one
  line after the other, in descending frequency, and stops at the first line below
  \<open>nu * z[i+1]\<close>.  So the lines processed are exactly those with frequency in
  \<open>[nu * z[i+1], nu * z[i]]\<close>, in the order of the list, each with the entries of
  the shell's row \<open>shell_id[i] * size_line + line\<close> of the two tables.
\<close>

theorem segment_processes_window:
  assumes "no_of_lines st = int (length (line_list_nu st))"
    and "sorted_wrt (\<ge>) (line_list_nu st)"
    and "rd z i = Inr (Some zi)" "rd z (i + 1) = Inr (Some zi1)" "rd shell_id i = Inr sh"
    and "0 \<le> sh"
    and "(nat sh + 1) * length (line_list_nu st) \<le> length exp_tau"
    and "(nat sh + 1) * length (line_list_nu st) \<le> length att_S_ul"
  shows "segment st exp_tau att_S_ul nu z shell_id i I =
           Inr (foldl (\<lambda>I k. dadd (dmul I (Some (exp_tau ! (nat sh * length (line_list_nu st) + k))))
                                (Some (att_S_ul ! (nat sh * length (line_list_nu st) + k))))
                  I [k \<leftarrow> [0..<length (line_list_nu st)].
                       nu * zi1 \<le> line_list_nu st ! k \<and> line_list_nu st ! k \<le> nu * zi])"
proof -
  define line_nu where "line_nu = line_list_nu st"
  define offset where "offset = sh * int (length line_nu)"
  define k0 where "k0 = length (takeWhile (\<lambda>x. nu * zi < x) line_nu)"
  have off: "0 \<le> offset" "nat offset = nat sh * length line_nu"
    using assms(6) by (simp_all add: offset_def nat_mult_distrib)
  have k0: "k0 \<le> length line_nu" by (simp add: k0_def length_takeWhile_le)
  have cap: "nat offset + length line_nu \<le> length exp_tau"
    "nat offset + length line_nu \<le> length att_S_ul"
    using assms(7,8) off by (simp_all add: line_nu_def)
  have "segment st exp_tau att_S_ul nu z shell_id i I =
        line_walk line_nu exp_tau att_S_ul (int (length line_nu)) (nu * zi1) offset (int k0) I"
    using assms(1,3,4,5)
    by (simp add: segment_def line_nu_def offset_def k0_def line_search_nat Let_def)
  also have "\<dots> = Inr (foldl (\<lambda>I j. dadd (dmul I (Some (exp_tau ! (nat offset + j))))
                                (Some (att_S_ul ! (nat offset + j))))
                  I [j \<leftarrow> [k0..<length line_nu]. nu * zi1 \<le> line_nu ! j])"
    using assms(2) k0 off(1) cap by (intro line_walk_from) (simp_all add: line_nu_def)
  also have "[j \<leftarrow> [k0..<length line_nu]. nu * zi1 \<le> line_nu ! j] =
             [j \<leftarrow> [0..<length line_nu]. nu * zi1 \<le> line_nu ! j \<and> line_nu ! j \<le> nu * zi]"
    using window_filter[of line_nu "nu * zi1" "nu * zi"] assms(2)
    by (simp add: line_nu_def k0_def)
  finally show ?thesis by (simp add: off(2) line_nu_def)
qed

theorem segment_processes_window_witness:
  "segment ex_three_lines [1/2, 1/2, 1/2, 1/4, 1/4, 1/4] [1, 2, 3, 4, 5, 6] 10
     [Some (5/2), Some (3/2)] [1, 1] 0 (Some 8) = Inr (Some 7)"
  using segment_processes_window [of ex_three_lines "[Some (5/2), Some (3/2)]" 0 "5/2" "3/2" "[1, 1]" 1
      "[1/2, 1/2, 1/2, 1/4, 1/4, 1/4]" "[1, 2, 3, 4, 5, 6]" 10 "Some 8"]
  by (simp add: ex_three_lines_def rd_def dadd_def dmul_def upt_rec)

lemma segment_without_lines:
  assumes "no_of_lines st = int (length (line_list_nu st))"
    and "rd zs i = Inr (Some a)" "rd zs (i + 1) = Inr (Some b)" "rd shell_ids i = Inr sh"
    and "\<forall>k<length (line_list_nu st). \<not> (nu * b \<le> line_list_nu st ! k \<and> line_list_nu st ! k \<le> nu * a)"
  shows "segment st exp_tau att_S_ul nu zs shell_ids i I = Inr I"
proof -
  define line_nu where "line_nu = line_list_nu st"
  define k0 where "k0 = length (takeWhile (\<lambda>x. nu * a < x) line_nu)"
  have seg: "segment st exp_tau att_S_ul nu zs shell_ids i I =
        line_walk line_nu exp_tau att_S_ul (int (length line_nu)) (nu * b)
          (sh * int (length line_nu)) (int k0) I"
    using assms(1-4) by (simp add: segment_def line_nu_def k0_def line_search_def Let_def)
  show ?thesis
  proof (cases "k0 < length line_nu")
    case True
    then have "\<not> nu * a < line_nu ! k0"
      unfolding k0_def by (rule nth_length_takeWhile)
    then have "line_nu ! k0 < nu * b"
      using assms(5) True by (auto simp: line_nu_def)
    then show ?thesis
      unfolding seg using True by (subst line_walk.simps) (simp add: rd_nat)
  next
    case False
    then show ?thesis
      unfolding seg by (subst line_walk.simps) simp
  qed
qed

lemma segments_loop_without_lines:
  assumes "no_of_lines st = int (length (line_list_nu st))"
    and "0 \<le> i"
    and "\<forall>j. i \<le> j \<and> j < size_z - 1 \<longrightarrow>
           (\<exists>a b sh. rd zs j = Inr (Some a) \<and> rd zs (j + 1) = Inr (Some b) \<and> rd shell_ids j = Inr sh \<and>
              (\<forall>k<length (line_list_nu st).
                 \<not> (nu * b \<le> line_list_nu st ! k \<and> line_list_nu st ! k \<le> nu * a)))"
  shows "segments_loop st exp_tau att_S_ul nu zs shell_ids size_z i I = Inr I"
  using assms(2,3)
proof (induction "nat (size_z - 1 - i)" arbitrary: i)
  case 0
  then show ?case by (subst segments_loop.simps) simp
next
  case (Suc d)
  then have lt: "i < size_z - 1" by simp
  have d: "d = nat (size_z - 1 - (i + 1))" using Suc.hyps by simp
  from Suc.prems(2) lt obtain a b sh where
    "rd zs i = Inr (Some a)" "rd zs (i + 1) = Inr (Some b)" "rd shell_ids i = Inr sh"
    "\<forall>k<length (line_list_nu st). \<not> (nu * b \<le> line_list_nu st ! k \<and> line_list_nu st ! k \<le> nu * a)"
    by blast
  then have seg: "segment st exp_tau att_S_ul nu zs shell_ids i I = Inr I"
    using assms(1) by (rule segment_without_lines[rotated])
  have "segments_loop st exp_tau att_S_ul nu zs shell_ids size_z (i + 1) I = Inr I"
    using Suc.hyps(1)[OF d] Suc.prems by simp
  then show ?case
    using lt seg by (subst segments_loop.simps) simp
qed

text \<open>
  Where the walk stays inside the intersection record, a ray that crosses no line keeps
  its seed.  Take the record that \<open>populate_z\<close> returns for \<open>p\<close>: if every
  segment of the walk has its end points and shell id in the record and no line has
  its frequency in the segment's window \<open>[nu * z[i+1], nu * z[i]]\<close>, then the
  intensity accumulated for the ray is its seed, \<open>intensity_black_body nu iT\<close>
  when \<open>p \<le> R_ph\<close> and 0 otherwise, multiplied by \<open>p\<close>; \<open>R_ph\<close> is
  \<open>r_inner[0]\<close>, as \<open>_formal_integral\<close> reads it.  Neither the order of the line
  list nor the tables play a part.  For \<open>p \<ge> r_outer[N-1]\<close> the first condition
  cannot hold: the count is \<open>2 * (N + 1)\<close> on buffers of \<open>2 * N\<close>.
\<close>

lemma ray_intensity_without_lines:
  assumes "no_of_lines st = int (length (line_list_nu st))"
    and "populate_z st p z0 shell_id0 = Inr (size_z, z1, shell_id1)"
    and "\<forall>i. 0 \<le> i \<and> i < size_z - 1 \<longrightarrow>
           (\<exists>a b sh. rd z1 i = Inr (Some a) \<and> rd z1 (i + 1) = Inr (Some b) \<and> rd shell_id1 i = Inr sh \<and>
              (\<forall>k<length (line_list_nu st).
                 \<not> (nu * b \<le> line_list_nu st ! k \<and> line_list_nu st ! k \<le> nu * a)))"
  shows "ray_intensity st iT exp_tau att_S_ul nu R_ph p z0 shell_id0 =
           Inr (dmul (if p \<le> R_ph then intensity_black_body nu iT else Some 0) (Some p),
                z1, shell_id1)"
  using assms(2) segments_loop_without_lines[OF assms(1) _ assms(3)]
  by (simp add: ray_intensity_def)

lemma ray_intensity_without_lines_example:
  "ray_intensity ex_one_shell 1 [1 / 2] [3] 1 1 3 [None, None] [7, 7] =
     Inr (Some 0, [Some (1 + 4 * C_INV), Some (1 - 4 * C_INV)], [0, 0])"
proof -
  have lines: "no_of_lines ex_one_shell = int (length (line_list_nu ex_one_shell))"
    by (simp add: ex_one_shell_def)
  have geometry: "populate_z ex_one_shell 3 [None, None] [7, 7] =
      Inr (2, [Some (1 + 4 * C_INV), Some (1 - 4 * C_INV)], [0, 0])"
    by (simp add: ex_one_shell_def populate_z_def populate_z_shells.simps rd_def wr_def
          calculate_z_def c_sqrt_def sqrt_16 Let_def C_INV_def)
  have windows: "\<forall>i. 0 \<le> i \<and> i < 2 - 1 \<longrightarrow>
      (\<exists>a b sh. rd [Some (1 + 4 * C_INV), Some (1 - 4 * C_INV)] i = Inr (Some a) \<and>
         rd [Some (1 + 4 * C_INV), Some (1 - 4 * C_INV)] (i + 1) = Inr (Some b) \<and>
         rd [0, 0] i = Inr sh \<and>
         (\<forall>k<length (line_list_nu ex_one_shell).
            \<not> (1 * b \<le> line_list_nu ex_one_shell ! k \<and> line_list_nu ex_one_shell ! k \<le> 1 * a)))"
  proof (intro allI impI)
    fix i :: int
    assume "0 \<le> i \<and> i < 2 - 1"
    then have "i = 0" by simp
    then show "\<exists>a b sh. rd [Some (1 + 4 * C_INV), Some (1 - 4 * C_INV)] i = Inr (Some a) \<and>
         rd [Some (1 + 4 * C_INV), Some (1 - 4 * C_INV)] (i + 1) = Inr (Some b) \<and>
         rd [0, 0] i = Inr sh \<and>
         (\<forall>k<length (line_list_nu ex_one_shell).
            \<not> (1 * b \<le> line_list_nu ex_one_shell ! k \<and> line_list_nu ex_one_shell ! k \<le> 1 * a))"
      by (intro exI[of _ "1 + 4 * C_INV"] exI[of _ "1 - 4 * C_INV"] exI[of _ 0])
         (simp add: rd_def ex_one_shell_def C_INV_def)
  qed
  show ?thesis
    using ray_intensity_without_lines [OF lines geometry windows,
        where iT = 1 and exp_tau = "[1 / 2]" and att_S_ul = "[3]" and R_ph = 1]
    by (simp add: dmul_def)
qed

text \<open>
  C6.  The claim: for every frequency and every impact parameter, a ray on which no
  line falls into a segment's window ends with its seed times \<open>p\<close>.  Take the last
  ray of a run with two samples, \<open>p = pp[1] = R_max = 5\<close>, on one shell of radius 5
  with photosphere radius 1.  The ray crosses no shell, so it has no segment and no
  line in one, and its seed is 0: the claim gives \<open>0 * 5 = 0\<close>.  The code walks
  \<open>2 * (N + 1) - 1 = 3\<close> segments on buffers of 2 slots and reads \<open>z[2]\<close>, with
  the single line at frequency 10 far from the window \<open>[0, 0]\<close> of the first
  segment, and with no line at all; the whole run ends there.
\<close>

theorem ray_intensity_last_ray_overrun:
  "ray_intensity ex_one_shell 1 [1] [0] 1 1 5 [Some 0, Some 0] [0, 0] = Inl OutOfBounds \<and>
   formal_integral ex_one_shell 1 [1] 1 [0] 2 (ex_stack 7) = Inl OutOfBounds \<and>
   ray_intensity ex_no_lines 1 [] [] 1 1 5 [Some 0, Some 0] [0, 0] = Inl OutOfBounds \<and>
   formal_integral ex_no_lines 1 [1] 1 [] 2 (ex_stack 7) = Inl OutOfBounds"
  by (simp add: evals ex_one_shell_def ex_no_lines_def ex_stack_def)

section \<open>The buffer of per-ray intensities\<close>

text \<open>
  The loop over the impact parameters starts at \<open>p_idx = 1\<close> and a ray writes
  \<open>I_nu[p_idx]\<close> only, so slot 0 keeps whatever the buffer held before the loop.
\<close>

lemma ray_keeps_slot_0:
  assumes "1 \<le> p_idx" "ray st iT exp_tau att_S_ul nu R_ph pp p_idx s = Inr s'"
  shows "buf_I_nu s' ! 0 = buf_I_nu s ! 0"
  using assms
  by (auto simp: ray_def wr_def split: sum.splits option.splits if_splits prod.splits)

lemma rays_loop_keeps_slot_0:
  assumes "1 \<le> p_idx" "rays_loop st iT exp_tau att_S_ul nu R_ph pp N p_idx s = Inr s'"
  shows "buf_I_nu s' ! 0 = buf_I_nu s ! 0"
  using assms
proof (induction "nat (N - p_idx)" arbitrary: p_idx s)
  case 0
  then show ?case by (subst (asm) rays_loop.simps) simp
next
  case (Suc d)
  then have lt: "p_idx < N" by simp
  have d: "d = nat (N - (p_idx + 1))" using Suc.hyps by simp
  from Suc.prems(2) lt obtain s1 where
    s1: "ray st iT exp_tau att_S_ul nu R_ph pp p_idx s = Inr s1"
    and rest: "rays_loop st iT exp_tau att_S_ul nu R_ph pp N (p_idx + 1) s1 = Inr s'"
    by (subst (asm) rays_loop.simps) (auto split: sum.splits)
  have "buf_I_nu s' ! 0 = buf_I_nu s1 ! 0"
    using Suc.hyps(1)[OF d _ rest] Suc.prems(1) by simp
  also have "\<dots> = buf_I_nu s ! 0"
    using ray_keeps_slot_0[OF Suc.prems(1) s1] .
  finally show ?case .
qed

text \<open>
  C1.  The claim: slot 0 of \<open>I_nu\<close> holds 0 when \<open>trapezoid_integration\<close>
  reads it.  \<open>I_nu\<close> is a variable-length array on the stack, nothing initialises
  it, and no statement writes slot 0.  Take the run
  \<open>formal_integral ex_thin_shell 1 [1] 1 [0] 2 (ex_stack 7)\<close>: two samples, so
  \<open>pp = [0, 1]\<close>, one frequency, and a stack that held 7 where \<open>I_nu\<close> is placed.
  The shell of this model has no thickness, so that the last ray \<open>p = R_max\<close> meets
  the photosphere and the run is free of the overrun above.
  After the loop over the rays of the frequency bin the buffer handed to the trapezoid
  rule still has 7 in slot 0, and the 7 is part of the value returned.
\<close>

theorem rays_loop_leaves_slot_0:
  "rays_loop ex_thin_shell 1 [1] [0] 1 1 [Some 0, Some 1] 2 1
     \<lparr>buf_I_nu = [Some 7, Some 7], buf_z = [Some 0, Some 0], buf_shell_id = [0, 0]\<rparr> =
   Inr \<lparr>buf_I_nu = [Some 7, dmul (intensity_black_body 1 1) (Some 1)],
        buf_z = [Some 1, Some 0], buf_shell_id = [0, 0]\<rparr> \<and>
   formal_integral ex_thin_shell 1 [1] 1 [0] 2 (ex_stack 7) =
   Inr [dmul (Some (8 * M_PI * M_PI))
          (dmul (map_option (\<lambda>v. v / 2) (dadd (Some 7) (dmul (intensity_black_body 1 1) (Some 1))))
             (Some (1 / 2)))]"
  by (simp add: populate_z_def rd_def wr_def calculate_z_def populate_z_photosphere.simps
        segments_loop.simps ray_intensity_def ray_def rays_loop.simps frequency_bin_def
        frequency_loop.simps exp_tau_loop.simps calculate_p_values_def
        calculate_p_values_loop.simps trapezoid_integration_def trapezoid_loop.simps
        formal_integral_def alloc_def ddiv_def upt_rec Let_def ex_thin_shell_def ex_stack_def
        dmul_def[of "Some _" "Some _"])

section \<open>The spectrum\<close>

lemma intensity_black_body_1_1: "\<exists>b. intensity_black_body 1 1 = Some b"
proof -
  have "H_CGS * (1 / KB_CGS) \<noteq> 0" by (simp add: H_CGS_def KB_CGS_def)
  then have "exp (H_CGS * (1 / KB_CGS)) \<noteq> 1" by (simp only: exp_eq_one_iff not_False_eq_True)
  then show ?thesis
    by (simp add: intensity_black_body_def ddiv_def KB_CGS_def Let_def)
qed

lemma M_PI_pi: "M_PI = pi"
  by (simp add: M_PI_def)

text \<open>
  C7.  The claim: every output slot \<open>L[nu_idx]\<close> depends on the inputs and on
  \<open>nu_idx\<close> only, so that runs with different thread counts or schedules give
  the same spectrum.  The trapezoid rule adds the uninitialised slot \<open>I_nu[0]\<close> of
  the executing thread's stack into \<open>L[nu_idx]\<close>: two runs on the same inputs
  whose stacks differ in that slot (7 and 0) return different spectra.
\<close>

theorem formal_integral_depends_on_stack:
  "formal_integral ex_thin_shell 1 [1] 1 [0] 2 (ex_stack 7) \<noteq>
   formal_integral ex_thin_shell 1 [1] 1 [0] 2 (ex_stack 0)"
proof -
  obtain b where b: "intensity_black_body 1 1 = Some b"
    using intensity_black_body_1_1 by blast
  have "formal_integral ex_thin_shell 1 [1] 1 [0] 2 (ex_stack g) =
          Inr [Some (8 * M_PI * M_PI * ((g + b) / 2 * (1 / 2)))]" for g
    by (simp add: evals ex_thin_shell_def ex_stack_def b)
  then show ?thesis by (simp add: M_PI_pi)
qed

text \<open>
  C8 as stated: invalid geometry input is rejected with an error before the
  computation starts.  \<open>_formal_integral\<close> has no validation and no error path.  On
  a shell model whose outer radii 5, 3 are not increasing it runs through and returns
  a spectrum.
\<close>

theorem formal_integral_non_monotonic:
  "formal_integral ex_non_monotonic 1 [1] 1 [0, 0] 2 (ex_stack 7) =
     Inr [Some (8 * M_PI * M_PI * (21 / 4))]"
  by (simp add: evals ex_non_monotonic_def ex_stack_def sqrt_16 C_INV_def)

lemma half_of_double: "map_option (\<lambda>v. v / 2) (dadd g g) = g"
  by (cases g) (simp_all add: dadd_def)

lemma exp_tau_loop_ok:
  assumes "k \<le> n" "n \<le> length tau" "n \<le> length et"
  shows "\<exists>et'. exp_tau_loop tau (int n) (int k) et = Inr et' \<and> length et' = length et"
  using assms
proof (induction "n - k" arbitrary: k et)
  case 0
  then show ?case by (subst exp_tau_loop.simps) simp
next
  case (Suc d)
  then have kn: "k < n" by simp
  have d: "d = n - Suc k" using Suc.hyps by simp
  have sk: "int k + 1 = int (Suc k)" by simp
  have "exp_tau_loop tau (int n) (int k) et =
        exp_tau_loop tau (int n) (int (Suc k)) (et[k := exp (- tau ! k)])"
    using kn Suc.prems
    apply (subst exp_tau_loop.simps)
    apply (simp only: of_nat_less_iff if_True sk)
    apply (simp add: rd_nat wr_nat)
    done
  then show ?case
    using Suc.hyps(1)[OF d, of "et[k := exp (- tau ! k)]"] kn Suc.prems by simp
qed

lemma frequency_loop_single_sample:
  assumes "k \<le> n" "length L = n" "n \<le> length inu" "buf_I_nu s = [g]"
  shows "frequency_loop st iT exp_tau att_S_ul R_ph R_max pp 1 inu (int n) (int k) (L, s) =
           Inr (take k L @ replicate (n - k)
                  (dmul (Some (8 * M_PI * M_PI))
                     (dmul (map_option (\<lambda>v. v / 2) (dadd g g)) (Some R_max))), s)"
  using assms(1,2)
proof (induction "n - k" arbitrary: k L)
  case 0
  then show ?case by (subst frequency_loop.simps) simp
next
  case (Suc d)
  then have kn: "k < n" by simp
  have d: "d = n - Suc k" using Suc.hyps by simp
  have sk: "int k + 1 = int (Suc k)" by simp
  define V where "V = dmul (Some (8 * M_PI * M_PI)) (dmul (map_option (\<lambda>v. v / 2) (dadd g g)) (Some R_max))"
  have bin: "frequency_bin st iT exp_tau att_S_ul R_ph R_max pp 1 inu (int k) (L, s) =
               Inr (L[k := V], s)"
    using kn Suc.prems assms(3,4)
    by (simp add: frequency_bin_def rd_nat wr_nat rays_loop.simps trapezoid_integration_def
          trapezoid_loop.simps rd_def ddiv_def V_def)
  have "frequency_loop st iT exp_tau att_S_ul R_ph R_max pp 1 inu (int n) (int k) (L, s) =
        frequency_loop st iT exp_tau att_S_ul R_ph R_max pp 1 inu (int n) (int (Suc k)) (L[k := V], s)"
    using kn
    apply (subst frequency_loop.simps)
    apply (simp only: of_nat_less_iff if_True sk bin sum.case)
    done
  also have "\<dots> = Inr (take (Suc k) (L[k := V]) @ replicate (n - Suc k) V, s)"
    using Suc.hyps(1)[OF d, of "L[k := V]"] kn Suc.prems by (simp add: V_def)
  also have "take (Suc k) (L[k := V]) @ replicate (n - Suc k) V = take k L @ replicate (n - k) V"
  proof -
    have "take (Suc k) (L[k := V]) = take k L @ [V]"
      using kn Suc.prems by (simp add: take_Suc_conv_app_nth)
    moreover have "n - k = Suc (n - Suc k)" using kn by simp
    then have "replicate (n - k) V = V # replicate (n - Suc k) V"
      by (simp only: replicate_Suc)
    ultimately show ?thesis by simp
  qed
  finally show ?case by (simp add: V_def)
qed

text \<open>
  C8, as amended.  The evaluator does not validate its input.  With \<open>N = 1\<close>, fewer
  than the two samples the trapezoid rule needs, and a storage whose arrays are as long
  as its counts say, it evaluates no ray, reports no error and returns one value per
  frequency: \<open>8 * M_PI * M_PI * I_nu[0] * R_max\<close>, where \<open>I_nu[0]\<close> is the
  uninitialised slot of the intensity buffer.
\<close>

theorem formal_integral_no_validation:
  assumes "r_inner st \<noteq> []"
    and "0 < no_of_shells st" "nat (no_of_shells st) \<le> length (r_outer st)"
    and "0 \<le> no_of_lines st"
    and "nat (no_of_lines st * no_of_shells st) \<le> length (line_lists_tau_sobolevs st)"
    and "0 \<le> inu_size" "nat inu_size \<le> length inu"
  shows "formal_integral st iT inu inu_size att_S_ul 1 stack =
           Inr (replicate (nat inu_size)
                  (dmul (Some (8 * M_PI * M_PI))
                     (dmul (stack_I_nu stack 0) (Some (r_outer st ! nat (no_of_shells st - 1))))))"
proof -
  define R_max where "R_max = r_outer st ! nat (no_of_shells st - 1)"
  define size_tau where "size_tau = no_of_lines st * no_of_shells st"
  define s where "s = \<lparr>buf_I_nu = alloc 1 (stack_I_nu stack),
               buf_z = alloc (2 * no_of_shells st) (stack_z stack),
               buf_shell_id = alloc (2 * no_of_shells st) (stack_shell_id stack)\<rparr>"
  have ph: "rd (r_inner st) 0 = Inr (r_inner st ! 0)"
    using assms(1) by (simp add: rd_def)
  have mx: "rd (r_outer st) (no_of_shells st - 1) = Inr R_max"
    using assms(2,3) by (simp add: rd_def R_max_def)
  have "0 \<le> size_tau" using assms(2,4) by (simp add: size_tau_def)
  then have st: "size_tau = int (nat size_tau)" by simp
  from exp_tau_loop_ok[of 0 "nat size_tau" "line_lists_tau_sobolevs st" "replicate (nat size_tau) 0"]
  obtain exp_tau where
    et: "exp_tau_loop (line_lists_tau_sobolevs st) size_tau 0 (replicate (nat size_tau) 0) = Inr exp_tau"
    using assms(5) st by (auto simp: size_tau_def)
  have pp: "calculate_p_values st 1 (replicate (nat 1) None) = Inr [None]"
    using mx by (simp add: calculate_p_values_def calculate_p_values_loop.simps wr_def ddiv_def dmul_def)
  have buf: "buf_I_nu s = [stack_I_nu stack 0]"
    by (simp add: s_def alloc_def)
  have n: "inu_size = int (nat inu_size)" using assms(6) by simp
  have run: "frequency_loop st iT exp_tau att_S_ul (r_inner st ! 0) R_max [None] 1 inu inu_size 0
               (replicate (nat inu_size) (Some 0), s) =
             Inr (replicate (nat inu_size)
                  (dmul (Some (8 * M_PI * M_PI))
                     (dmul (map_option (\<lambda>v. v / 2) (dadd (stack_I_nu stack 0) (stack_I_nu stack 0)))
                        (Some R_max))), s)"
    using frequency_loop_single_sample[of 0 "nat inu_size" "replicate (nat inu_size) (Some 0)" inu s
        "stack_I_nu stack 0" st iT exp_tau att_S_ul "r_inner st ! 0" R_max "[None]"]
      assms(7) buf n by simp
  show ?thesis
    unfolding formal_integral_def Let_def
    using ph mx et pp run
    by (simp add: size_tau_def s_def R_max_def half_of_double)
qed

theorem formal_integral_no_validation_witness:
  "formal_integral ex_one_shell 1 [1, 2] 2 [0] 1 (ex_stack 7) =
     Inr [Some (8 * M_PI * M_PI * 35), Some (8 * M_PI * M_PI * 35)]"
  using formal_integral_no_validation [of ex_one_shell 2 "[1, 2]" 1 "[0]" "ex_stack 7"]
  by (simp add: ex_one_shell_def ex_stack_def dmul_def numeral_2_eq_2)

end
